theory Spec2Isabelle
  imports Complex_Main "HOL-Library.AList"
begin

section \<open>Conventions of the embedding\<close>

text \<open>
  The theory embeds the parts of \<^verbatim>\<open>yocto_shape.h\<close> (namespace \<^verbatim>\<open>yshape\<close>) that build the
  edge dictionary, split a mesh along its edges, build and sample element distributions,
  interpolate vertex data and accumulate normals.

  \<^item> A C++ \<^verbatim>\<open>int\<close> is a HOL \<open>int\<close> within the 32 bits of the type, and a \<^verbatim>\<open>size_t\<close> is a
    \<open>nat\<close>. The sum \<^verbatim>\<open>nverts + id\<close> of \<^verbatim>\<open>split_edges\<close> can leave the 32 bits: it is
    \<open>int_add\<close>, which wraps around as two's complement does (the overflow is undefined
    in C++). A container size fits an \<^verbatim>\<open>int\<close>.
  \<^item> \<^verbatim>\<open>vec2i\<close>, \<^verbatim>\<open>vec3i\<close>, \<^verbatim>\<open>vec2f\<close> and \<^verbatim>\<open>vec3f\<close> are tuples; \<^verbatim>\<open>v[i]\<close> on them is
    a projection.
  \<^item> A \<^verbatim>\<open>vector<T>\<close> and an \<^verbatim>\<open>array_view<T>\<close> (declared in \<^verbatim>\<open>yocto_math.h\<close>: a pointer
    and a length over storage owned by somebody else) are lists. A function writing
    through an \<^verbatim>\<open>array_view\<close> returns the updated list, of the same length.
  \<^item> A finite \<^verbatim>\<open>float\<close> is the \<open>real\<close> it stands for. Every float operation rounds its
    exact result to single precision (\<open>rnd32\<close>: to the nearest float, ties to the even
    significand, with the subnormal range). Where the result is no finite float (an
    overflow, a division by zero, the square root of a negative number) the C++ raises
    nothing and stores an infinity or a NaN; the embedding stops there with
    \<open>NotANumber\<close>. The vertex data of \<^verbatim>\<open>interpolate_vert\<close>, a template parameter, is an
    abstract real vector space: its sum and its scaling by a float are exact, the float
    weights it is scaled by are rounded.
  \<^item> A function that can fail returns \<open>error + 'a\<close>. \<open>AssertionFailed\<close> is a failed
    \<^verbatim>\<open>assert\<close> (assertions enabled). \<open>IndexOutOfRange\<close> stands for the undefined
    behaviour of reading or writing a vector or view outside its bounds. \<open>NoReturn\<close> is
    a loop that never ends.
\<close>

datatype error = AssertionFailed | IndexOutOfRange | NotANumber | NoReturn

type_synonym vec2i = "int \<times> int"
type_synonym vec3i = "int \<times> int \<times> int"
type_synonym vec2f = "real \<times> real"
type_synonym vec3f = "real \<times> real \<times> real"

definition ebind :: "error + 'a \<Rightarrow> ('a \<Rightarrow> error + 'b) \<Rightarrow> error + 'b" where
  "ebind r f = (case r of Inl x \<Rightarrow> Inl x | Inr v \<Rightarrow> f v)"

text \<open>A \<^verbatim>\<open>for\<close> loop over a sequence whose body can fail: the first failure ends the run.\<close>

fun efoldl :: "('s \<Rightarrow> 'a \<Rightarrow> error + 's) \<Rightarrow> 's \<Rightarrow> 'a list \<Rightarrow> error + 's" where
  "efoldl f s [] = Inr s"
| "efoldl f s (x # xs) = ebind (f s x) (\<lambda>s'. efoldl f s' xs)"

text \<open>\<^verbatim>\<open>xs[i]\<close> read and written, with an \<^verbatim>\<open>int\<close> index.\<close>

definition get_at :: "'a list \<Rightarrow> int \<Rightarrow> error + 'a" where
  "get_at xs i = (if 0 \<le> i \<and> nat i < length xs then Inr (xs ! nat i) else Inl IndexOutOfRange)"

definition set_at :: "'a list \<Rightarrow> int \<Rightarrow> 'a \<Rightarrow> error + 'a list" where
  "set_at xs i v =
     (if 0 \<le> i \<and> nat i < length xs then Inr (xs[nat i := v]) else Inl IndexOutOfRange)"

text \<open>\<^verbatim>\<open>t[i]\<close> on a \<^verbatim>\<open>vec3i\<close>, for the indices 0, 1 and 2 the source uses.\<close>

fun nth3 :: "vec3i \<Rightarrow> nat \<Rightarrow> int" where
  "nth3 (a, b, c) i = (if i = 0 then a else if i = 1 then b else c)"

section \<open>The edge dictionary \<^verbatim>\<open>edge_map\<close>\<close>

text \<open>
  \<^verbatim>\<open>_map\<close> is a \<^verbatim>\<open>std::unordered_map<vec2i, int>\<close>. It is kept as the list of its entries
  in the order the keys were added; assigning to a key replaces the value in place or
  appends a new entry (\<^const>\<open>AList.update\<close>). In
  \<^verbatim>\<open>_map[_edge(e)] = (int)_map.size()\<close> the right-hand side is evaluated first, as C++17
  sequences an assignment: the new entry gets the size before the insertion.
\<close>

type_synonym edge_map = "(vec2i \<times> int) list"

definition em_edge :: "vec2i \<Rightarrow> vec2i" where
  "em_edge e = (min (fst e) (snd e), max (fst e) (snd e))"

definition em_size :: "edge_map \<Rightarrow> nat" where
  "em_size m = length m"

definition has_edge :: "edge_map \<Rightarrow> vec2i \<Rightarrow> bool" where
  "has_edge m e = (map_of m (em_edge e) \<noteq> None)"

definition insert_edge :: "edge_map \<Rightarrow> vec2i \<Rightarrow> edge_map" where
  "insert_edge m e =
     (if \<not> has_edge m e then AList.update (em_edge e) (int (em_size m)) m else m)"

text \<open>
  \<^verbatim>\<open>operator[]\<close>: \<^verbatim>\<open>assert(has_edge(e))\<close> comes first, so a missing edge ends the run and
  the \<^verbatim>\<open>return -1\<close> behind it is not reached; \<^verbatim>\<open>_map.at\<close> throws on a missing key.
\<close>

definition em_at :: "edge_map \<Rightarrow> vec2i \<Rightarrow> error + int" where
  "em_at m e =
     (if \<not> has_edge m e then Inl AssertionFailed
      else case map_of m (em_edge e) of None \<Rightarrow> Inl IndexOutOfRange | Some i \<Rightarrow> Inr i)"

definition insert_triangle :: "edge_map \<Rightarrow> vec3i \<Rightarrow> edge_map" where
  "insert_triangle m t =
     foldl (\<lambda>m i. insert_edge m (nth3 t i, nth3 t ((i + 1) mod 3))) m [0, 1, 2]"

definition make_edge_map :: "vec2i list \<Rightarrow> vec3i list \<Rightarrow> edge_map" where
  "make_edge_map lines triangles =
     foldl insert_triangle (foldl insert_edge [] lines) triangles"

section \<open>Splitting the elements along their edges\<close>

text \<open>\<^verbatim>\<open>a + b\<close> on two \<^verbatim>\<open>int\<close>s of 32 bits, wrapping around.\<close>

definition int_add :: "int \<Rightarrow> int \<Rightarrow> int" where
  "int_add a b = (a + b + 2147483648) mod 4294967296 - 2147483648"

definition split_line :: "int \<Rightarrow> edge_map \<Rightarrow> vec2i list \<Rightarrow> vec2i \<Rightarrow> error + vec2i list" where
  "split_line nverts em tess_lines l =
     ebind (em_at em l) (\<lambda>i.
     ebind (em_at em l) (\<lambda>j.
       Inr (tess_lines @ [(fst l, int_add nverts i), (int_add nverts j, snd l)])))"

definition split_corner :: "int \<Rightarrow> edge_map \<Rightarrow> vec3i \<Rightarrow> vec3i list \<Rightarrow> nat \<Rightarrow> error + vec3i list" where
  "split_corner nverts em t tess_triangles i =
     ebind (em_at em (nth3 t i, nth3 t ((i + 1) mod 3))) (\<lambda>a.
     ebind (em_at em (nth3 t i, nth3 t ((i + 2) mod 3))) (\<lambda>b.
       Inr (tess_triangles @ [(nth3 t i, int_add nverts a, int_add nverts b)])))"

definition split_triangle :: "int \<Rightarrow> edge_map \<Rightarrow> vec3i list \<Rightarrow> vec3i \<Rightarrow> error + vec3i list" where
  "split_triangle nverts em tess_triangles t =
     ebind (efoldl (split_corner nverts em t) tess_triangles [0, 1, 2]) (\<lambda>tess_triangles.
     ebind (em_at em (nth3 t 0, nth3 t 1)) (\<lambda>a.
     ebind (em_at em (nth3 t 1, nth3 t 2)) (\<lambda>b.
     ebind (em_at em (nth3 t 2, nth3 t 0)) (\<lambda>c.
       Inr (tess_triangles @ [(int_add nverts a, int_add nverts b, int_add nverts c)])))))"

text \<open>\<^verbatim>\<open>edges.resize(n)\<close> keeps the first \<open>n\<close> old entries and pads with \<^verbatim>\<open>vec2i()\<close>.\<close>

definition resize :: "nat \<Rightarrow> vec2i list \<Rightarrow> vec2i list" where
  "resize n xs = take n xs @ replicate (n - length xs) (0, 0)"

text \<open>
  \<^verbatim>\<open>split_edges\<close> clears \<^verbatim>\<open>tess_lines\<close> and \<^verbatim>\<open>tess_triangles\<close> and resizes \<^verbatim>\<open>edges\<close>, so of
  the three out-parameters only the old content of \<^verbatim>\<open>edges\<close> is an input. The last loop
  visits the entries of the dictionary in the order of the entry list.
\<close>

definition split_edges ::
  "int \<Rightarrow> vec2i list \<Rightarrow> vec3i list \<Rightarrow> vec2i list \<Rightarrow> error + (vec2i list \<times> vec3i list \<times> vec2i list)" where
  "split_edges nverts lines triangles edges =
     (let em = make_edge_map lines triangles in
      ebind (efoldl (split_line nverts em) [] lines) (\<lambda>tess_lines.
      ebind (efoldl (split_triangle nverts em) [] triangles) (\<lambda>tess_triangles.
      ebind (efoldl (\<lambda>edges e. set_at edges (snd e) (fst e)) (resize (em_size em) edges) em)
        (\<lambda>edges. Inr (tess_lines, tess_triangles, edges)))))"

section \<open>Single-precision arithmetic\<close>

text \<open>
  \<open>round_even\<close> is the nearest integer, the even one of two that are equally near.
  A float other than 0 with \<open>2 ^ e \<le> \<bar>x\<bar> < 2 ^ (e + 1)\<close> has 24 significant bits, so the
  floats around \<open>x\<close> are \<open>2 ^ (e - 23)\<close> apart; below \<open>2 ^ - 126\<close> (the subnormal floats)
  they are \<open>2 ^ - 149\<close> apart. \<open>rnd32\<close> rounds to that grid, \<open>f32\<close> is the result of a float
  operation whose exact result is \<open>x\<close>: the rounded value, or no finite float when the
  rounded value is beyond the largest float \<open>f32_max\<close>.
\<close>

definition round_even :: "real \<Rightarrow> int" where
  "round_even y =
     (let f = \<lfloor>y\<rfloor>; d = y - of_int f in
      if d < 1 / 2 then f else if 1 / 2 < d then f + 1 else if even f then f else f + 1)"

definition f32_exponent :: "real \<Rightarrow> int" where
  "f32_exponent x = max \<lfloor>log 2 \<bar>x\<bar>\<rfloor> (- 126)"

definition f32_quantum :: "real \<Rightarrow> real" where
  "f32_quantum x = 2 powr (of_int (f32_exponent x) - 23)"

definition rnd32 :: "real \<Rightarrow> real" where
  "rnd32 x = (if x = 0 then 0 else f32_quantum x * of_int (round_even (x / f32_quantum x)))"

definition f32_max :: real where
  "f32_max = (2 ^ 24 - 1) * 2 ^ 104"

definition f32 :: "real \<Rightarrow> error + real" where
  "f32 x = (if \<bar>rnd32 x\<bar> \<le> f32_max then Inr (rnd32 x) else Inl NotANumber)"

definition fadd :: "real \<Rightarrow> real \<Rightarrow> error + real" where
  "fadd a b = f32 (a + b)"

definition fsub :: "real \<Rightarrow> real \<Rightarrow> error + real" where
  "fsub a b = f32 (a - b)"

definition fmul :: "real \<Rightarrow> real \<Rightarrow> error + real" where
  "fmul a b = f32 (a * b)"

definition fdiv :: "real \<Rightarrow> real \<Rightarrow> error + real" where
  "fdiv a b = (if b = 0 then Inl NotANumber else f32 (a / b))"

definition fsqrt :: "real \<Rightarrow> error + real" where
  "fsqrt x = (if x < 0 then Inl NotANumber else f32 (sqrt x))"

section \<open>Vector primitives of \<^verbatim>\<open>yocto_math.h\<close>\<close>

text \<open>
  Modelled from the spec: \<^verbatim>\<open>yocto_math.h\<close> is not among the sources. The spec takes the
  vector primitives as given: component-wise sum and difference, the cross product and
  the Euclidean length (``Euclidean distance between its two endpoint positions'',
  ``half the magnitude of the cross product of two edge vectors''). They are taken as
  written in float operations, each of which rounds, the three squares of the length
  summed from the left. \<^verbatim>\<open>normalize\<close> is left open (what it returns on the zero vector
  is not said): \<^verbatim>\<open>compute_normals\<close> takes it as the parameter \<open>normalize3\<close>.
\<close>

definition zero3f :: vec3f where
  "zero3f = (0, 0, 0)"

fun add3 :: "vec3f \<Rightarrow> vec3f \<Rightarrow> error + vec3f" where
  "add3 (a, b, c) (x, y, z) =
     ebind (fadd a x) (\<lambda>p. ebind (fadd b y) (\<lambda>q. ebind (fadd c z) (\<lambda>r. Inr (p, q, r))))"

fun sub3 :: "vec3f \<Rightarrow> vec3f \<Rightarrow> error + vec3f" where
  "sub3 (a, b, c) (x, y, z) =
     ebind (fsub a x) (\<lambda>p. ebind (fsub b y) (\<lambda>q. ebind (fsub c z) (\<lambda>r. Inr (p, q, r))))"

text \<open>\<open>a * b - c * d\<close>, one component of the cross product.\<close>

definition fmulsub :: "real \<Rightarrow> real \<Rightarrow> real \<Rightarrow> real \<Rightarrow> error + real" where
  "fmulsub a b c d = ebind (fmul a b) (\<lambda>m. ebind (fmul c d) (\<lambda>n. fsub m n))"

fun cross :: "vec3f \<Rightarrow> vec3f \<Rightarrow> error + vec3f" where
  "cross (a, b, c) (x, y, z) =
     ebind (fmulsub b z c y) (\<lambda>p.
     ebind (fmulsub c x a z) (\<lambda>q.
     ebind (fmulsub a y b x) (\<lambda>r. Inr (p, q, r))))"

fun length3 :: "vec3f \<Rightarrow> error + real" where
  "length3 (a, b, c) =
     ebind (fmul a a) (\<lambda>aa.
     ebind (fmul b b) (\<lambda>bb.
     ebind (fadd aa bb) (\<lambda>s.
     ebind (fmul c c) (\<lambda>cc.
     ebind (fadd s cc) (\<lambda>t. fsqrt t)))))"

text \<open>\<^verbatim>\<open>xs.back()\<close>.\<close>

definition back_elem :: "'a list \<Rightarrow> error + 'a" where
  "back_elem xs = (if xs = [] then Inl IndexOutOfRange else Inr (last xs))"

section \<open>Smoothed normals\<close>

text \<open>
  The view \<^verbatim>\<open>norm\<close> is written \<open>nrm\<close> and the function \<^verbatim>\<open>normalize\<close> of
  \<^verbatim>\<open>yocto_math.h\<close> is the parameter \<open>normalize3\<close>. \<open>add_at\<close> is \<^verbatim>\<open>norm[i] += n\<close>.
\<close>

definition add_at :: "vec3f list \<Rightarrow> int \<Rightarrow> vec3f \<Rightarrow> error + vec3f list" where
  "add_at nrm i n = ebind (get_at nrm i) (\<lambda>v. ebind (add3 v n) (\<lambda>w. set_at nrm i w))"

definition normals_line ::
  "(vec3f \<Rightarrow> error + vec3f) \<Rightarrow> vec3f list \<Rightarrow> bool \<Rightarrow> vec3f list \<Rightarrow> vec2i \<Rightarrow> error + vec3f list" where
  "normals_line normalize3 pos weighted nrm l =
     ebind (get_at pos (snd l)) (\<lambda>p1.
     ebind (get_at pos (fst l)) (\<lambda>p0.
     ebind (sub3 p1 p0) (\<lambda>n.
     ebind (if \<not> weighted then normalize3 n else Inr n) (\<lambda>n.
     ebind (add_at nrm (fst l) n) (\<lambda>nrm.
       add_at nrm (snd l) n)))))"

definition normals_triangle ::
  "(vec3f \<Rightarrow> error + vec3f) \<Rightarrow> vec3f list \<Rightarrow> bool \<Rightarrow> vec3f list \<Rightarrow> vec3i \<Rightarrow> error + vec3f list" where
  "normals_triangle normalize3 pos weighted nrm t =
     ebind (get_at pos (nth3 t 1)) (\<lambda>p1.
     ebind (get_at pos (nth3 t 0)) (\<lambda>p0.
     ebind (get_at pos (nth3 t 2)) (\<lambda>p2.
     ebind (sub3 p1 p0) (\<lambda>a.
     ebind (sub3 p2 p0) (\<lambda>b.
     ebind (cross a b) (\<lambda>n.
     ebind (if \<not> weighted then normalize3 n else Inr n) (\<lambda>n.
     ebind (add_at nrm (nth3 t 0) n) (\<lambda>nrm.
     ebind (add_at nrm (nth3 t 1) n) (\<lambda>nrm.
       add_at nrm (nth3 t 2) n)))))))))"

text \<open>
  The overload that fills \<^verbatim>\<open>norm\<close>, a view of as many entries as the caller passes: the
  entries are cleared, every element adds its direction to its vertices, and every entry
  is normalized.
\<close>

definition compute_normals ::
  "(vec3f \<Rightarrow> error + vec3f) \<Rightarrow> int list \<Rightarrow> vec2i list \<Rightarrow> vec3i list \<Rightarrow> vec3f list \<Rightarrow>
     vec3f list \<Rightarrow> bool \<Rightarrow> error + vec3f list" where
  "compute_normals normalize3 points lines triangles pos nrm weighted =
     ebind (Inr (map (\<lambda>n. zero3f) nrm)) (\<lambda>nrm.
     ebind (efoldl (\<lambda>nrm p. add_at nrm p (0, 0, 1)) nrm points) (\<lambda>nrm.
     ebind (efoldl (normals_line normalize3 pos weighted) nrm lines) (\<lambda>nrm.
     ebind (efoldl (normals_triangle normalize3 pos weighted) nrm triangles) (\<lambda>nrm.
       efoldl (\<lambda>nrm i. ebind (get_at nrm (int i)) (\<lambda>n.
                        ebind (normalize3 n) (\<lambda>n'. set_at nrm (int i) n')))
         nrm [0..<length nrm]))))"

text \<open>
  The overload that returns the normals: it declares an empty \<^verbatim>\<open>vector<vec3f> norm\<close>,
  passes it as the view to fill, and returns it.
\<close>

definition compute_normals_ret ::
  "(vec3f \<Rightarrow> error + vec3f) \<Rightarrow> int list \<Rightarrow> vec2i list \<Rightarrow> vec3i list \<Rightarrow> vec3f list \<Rightarrow>
     bool \<Rightarrow> error + vec3f list" where
  "compute_normals_ret normalize3 points lines triangles pos weighted =
     compute_normals normalize3 points lines triangles pos [] weighted"

section \<open>Element distributions\<close>

text \<open>
  The second and third loop of the three single-kind \<^verbatim>\<open>sample_shape_cdf\<close>:
  \<^verbatim>\<open>cdf[i] += cdf[i - 1]\<close> from 1 on, and \<^verbatim>\<open>cdf[i] /= cdf.back()\<close> from 0 on.
\<close>

definition cdf_accumulate :: "nat \<Rightarrow> real list \<Rightarrow> error + real list" where
  "cdf_accumulate n cdf =
     efoldl (\<lambda>cdf i. ebind (get_at cdf (int i)) (\<lambda>c.
                      ebind (get_at cdf (int i - 1)) (\<lambda>p.
                      ebind (fadd c p) (\<lambda>s. set_at cdf (int i) s))))
       cdf [1..<n]"

definition cdf_normalize :: "nat \<Rightarrow> real list \<Rightarrow> error + real list" where
  "cdf_normalize n cdf =
     efoldl (\<lambda>cdf i. ebind (get_at cdf (int i)) (\<lambda>c.
                      ebind (back_elem cdf) (\<lambda>b.
                      ebind (fdiv c b) (\<lambda>q. set_at cdf (int i) q))))
       cdf [0..<n]"

text \<open>
  \<^verbatim>\<open>cdf\<close> is the caller's view; the functions return it filled, with \<^verbatim>\<open>weight\<close>.
\<close>

definition sample_shape_cdf_points ::
  "int list \<Rightarrow> vec3f list \<Rightarrow> real list \<Rightarrow> error + (real list \<times> real)" where
  "sample_shape_cdf_points elems pos cdf =
     ebind (efoldl (\<lambda>cdf i. set_at cdf (int i) 1) cdf [0..<length elems]) (\<lambda>cdf.
     ebind (cdf_accumulate (length elems) cdf) (\<lambda>cdf.
     ebind (back_elem cdf) (\<lambda>weight.
     ebind (cdf_normalize (length elems) cdf) (\<lambda>cdf.
       Inr (cdf, weight)))))"

definition sample_shape_cdf_lines ::
  "vec2i list \<Rightarrow> vec3f list \<Rightarrow> real list \<Rightarrow> error + (real list \<times> real)" where
  "sample_shape_cdf_lines elems pos cdf =
     ebind (efoldl (\<lambda>cdf i. ebind (get_at elems (int i)) (\<lambda>f.
                             ebind (get_at pos (fst f)) (\<lambda>p0.
                             ebind (get_at pos (snd f)) (\<lambda>p1.
                             ebind (sub3 p0 p1) (\<lambda>d.
                             ebind (length3 d) (\<lambda>w. set_at cdf (int i) w))))))
              cdf [0..<length elems]) (\<lambda>cdf.
     ebind (cdf_accumulate (length elems) cdf) (\<lambda>cdf.
     ebind (back_elem cdf) (\<lambda>weight.
     ebind (cdf_normalize (length elems) cdf) (\<lambda>cdf.
       Inr (cdf, weight)))))"

definition sample_shape_cdf_triangles ::
  "vec3i list \<Rightarrow> vec3f list \<Rightarrow> real list \<Rightarrow> error + (real list \<times> real)" where
  "sample_shape_cdf_triangles elems pos cdf =
     ebind (efoldl (\<lambda>cdf i. ebind (get_at elems (int i)) (\<lambda>f.
                             ebind (get_at pos (nth3 f 0)) (\<lambda>p0.
                             ebind (get_at pos (nth3 f 1)) (\<lambda>p1.
                             ebind (get_at pos (nth3 f 2)) (\<lambda>p2.
                             ebind (sub3 p0 p1) (\<lambda>a.
                             ebind (sub3 p0 p2) (\<lambda>b.
                             ebind (cross a b) (\<lambda>c.
                             ebind (length3 c) (\<lambda>l.
                             ebind (fdiv l 2) (\<lambda>w. set_at cdf (int i) w))))))))))
              cdf [0..<length elems]) (\<lambda>cdf.
     ebind (cdf_accumulate (length elems) cdf) (\<lambda>cdf.
     ebind (back_elem cdf) (\<lambda>weight.
     ebind (cdf_normalize (length elems) cdf) (\<lambda>cdf.
       Inr (cdf, weight)))))"

definition sample_shape_cdf ::
  "int list \<Rightarrow> vec2i list \<Rightarrow> vec3i list \<Rightarrow> vec3f list \<Rightarrow> real list \<Rightarrow>
     error + (real list \<times> real)" where
  "sample_shape_cdf points lines triangles pos cdf =
     (if points \<noteq> [] then sample_shape_cdf_points points pos cdf
      else if lines \<noteq> [] then sample_shape_cdf_lines lines pos cdf
      else if triangles \<noteq> [] then sample_shape_cdf_triangles triangles pos cdf
      else Inl AssertionFailed)"

section \<open>Sampling\<close>

text \<open>
  The loop of \<^verbatim>\<open>_bsearch_smaller\<close> on the state \<^verbatim>\<open>(low, high)\<close>. Its condition is
  \<^verbatim>\<open>low != high\<close>, so from a state with \<open>high < low\<close> it need not end: the result is
  an option, \<open>None\<close> when the loop never returns.
\<close>

partial_function (option) bsearch_loop :: "real \<Rightarrow> real list \<Rightarrow> nat \<Rightarrow> nat \<Rightarrow> nat option" where
  "bsearch_loop x a low high =
     (if low \<noteq> high then
        (let mid = (low + high) div 2 in
         if a ! mid < x then bsearch_loop x a (mid + 1) high
         else bsearch_loop x a low mid)
      else Some low)"

text \<open>
  \<^verbatim>\<open>_bsearch_smaller(x, a, n)\<close>: the array and its length are one list. The loop starts at
  \<open>(0, n)\<close> and reads \<open>a ! mid\<close> with \<open>mid < n\<close> only.
\<close>

definition bsearch_smaller :: "real \<Rightarrow> real list \<Rightarrow> error + nat" where
  "bsearch_smaller x a =
     (case bsearch_loop x a 0 (length a) of None \<Rightarrow> Inl NoReturn | Some low \<Rightarrow> Inr low)"

definition sample_shape_points :: "real list \<Rightarrow> real \<Rightarrow> error + int" where
  "sample_shape_points cdf ern = ebind (bsearch_smaller ern cdf) (\<lambda>low. Inr (int low))"

definition sample_shape_lines :: "real list \<Rightarrow> real \<Rightarrow> real \<Rightarrow> error + (int \<times> real)" where
  "sample_shape_lines cdf ern uvrn =
     ebind (bsearch_smaller ern cdf) (\<lambda>low. Inr (int low, uvrn))"

text \<open>\<^verbatim>\<open>{1 - sqrtf(uvrn[0]), uvrn[1] * sqrtf(uvrn[0])}\<close>.\<close>

definition triangle_remap :: "vec2f \<Rightarrow> error + vec2f" where
  "triangle_remap uvrn =
     ebind (fsqrt (fst uvrn)) (\<lambda>s.
     ebind (fsub 1 s) (\<lambda>u.
     ebind (fsqrt (fst uvrn)) (\<lambda>s'.
     ebind (fmul (snd uvrn) s') (\<lambda>v. Inr (u, v)))))"

definition sample_shape_triangles :: "real list \<Rightarrow> real \<Rightarrow> vec2f \<Rightarrow> error + (int \<times> vec2f)" where
  "sample_shape_triangles cdf ern uvrn =
     ebind (bsearch_smaller ern cdf) (\<lambda>low.
     ebind (triangle_remap uvrn) (\<lambda>euv. Inr (int low, euv)))"

definition sample_shape ::
  "real list \<Rightarrow> real list \<Rightarrow> real list \<Rightarrow> real \<Rightarrow> vec2f \<Rightarrow> error + (int \<times> vec2f)" where
  "sample_shape point_cdf line_cdf triangle_cdf ern uvrn =
     (if point_cdf \<noteq> [] then
        ebind (sample_shape_points point_cdf ern) (\<lambda>eid. Inr (eid, uvrn))
      else if line_cdf \<noteq> [] then
        ebind (sample_shape_lines line_cdf ern (fst uvrn)) (\<lambda>r.
          Inr (fst r, (snd r, snd uvrn)))
      else if triangle_cdf \<noteq> [] then sample_shape_triangles triangle_cdf ern uvrn
      else Inl AssertionFailed)"

section \<open>Interpolation of vertex data\<close>

text \<open>
  The vertex data \<^verbatim>\<open>T\<close> is any real vector space; \<^verbatim>\<open>v * s\<close> is the scaling of \<open>v\<close> by the
  float \<open>s\<close>. The weights \<^verbatim>\<open>1 - euv[0]\<close> and \<^verbatim>\<open>1 - euv[0] - euv[1]\<close> are float
  subtractions.
\<close>

definition interpolate_vert_lines ::
  "vec2i list \<Rightarrow> ('a::real_vector) list \<Rightarrow> int \<Rightarrow> vec2f \<Rightarrow> error + 'a" where
  "interpolate_vert_lines lines vert eid euv =
     ebind (get_at lines eid) (\<lambda>l.
     ebind (get_at vert (fst l)) (\<lambda>v0.
     ebind (get_at vert (snd l)) (\<lambda>v1.
     ebind (fsub 1 (fst euv)) (\<lambda>w0.
       Inr (w0 *\<^sub>R v0 + snd euv *\<^sub>R v1)))))"

definition interpolate_vert_triangles ::
  "vec3i list \<Rightarrow> ('a::real_vector) list \<Rightarrow> int \<Rightarrow> vec2f \<Rightarrow> error + 'a" where
  "interpolate_vert_triangles triangles vert eid euv =
     ebind (get_at triangles eid) (\<lambda>t.
     ebind (get_at vert (nth3 t 0)) (\<lambda>v0.
     ebind (get_at vert (nth3 t 1)) (\<lambda>v1.
     ebind (get_at vert (nth3 t 2)) (\<lambda>v2.
     ebind (fsub 1 (fst euv)) (\<lambda>w.
     ebind (fsub w (snd euv)) (\<lambda>w0.
       Inr (w0 *\<^sub>R v0 + fst euv *\<^sub>R v1 + snd euv *\<^sub>R v2)))))))"

definition interpolate_vert ::
  "int list \<Rightarrow> vec2i list \<Rightarrow> vec3i list \<Rightarrow> ('a::real_vector) list \<Rightarrow> int \<Rightarrow> vec2f \<Rightarrow> error + 'a" where
  "interpolate_vert points lines triangles vert eid euv =
     (if points \<noteq> [] then ebind (get_at points eid) (\<lambda>p. get_at vert p)
      else if lines \<noteq> [] then
        ebind (get_at lines eid) (\<lambda>l.
        ebind (get_at vert (fst l)) (\<lambda>v0.
        ebind (get_at vert (snd l)) (\<lambda>v1.
        ebind (fsub 1 (fst euv)) (\<lambda>w0.
          Inr (w0 *\<^sub>R v0 + snd euv *\<^sub>R v1)))))
      else if triangles \<noteq> [] then
        ebind (get_at triangles eid) (\<lambda>t.
        ebind (get_at vert (nth3 t 0)) (\<lambda>v0.
        ebind (get_at vert (nth3 t 1)) (\<lambda>v1.
        ebind (get_at vert (nth3 t 2)) (\<lambda>v2.
        ebind (fsub 1 (fst euv)) (\<lambda>w.
        ebind (fsub w (snd euv)) (\<lambda>w0.
          Inr (w0 *\<^sub>R v0 + fst euv *\<^sub>R v1 + snd euv *\<^sub>R v2)))))))
      else Inl AssertionFailed)"

section \<open>Notions used to state the properties\<close>

text \<open>
  The invariant of the dictionary; the undirected edges of a mesh as sets of endpoints,
  the keys the dictionary holds for them, and the vertex ids the elements use; the id the
  dictionary gives an edge and the children of a line and of a triangle as the code builds
  them; the position of an edge in the edge list, the midpoint it stands for, the two
  halves of a line and the four triangles of a triangle as the specification describes
  them; the grid \<open>2 ^ k\<close> of the floats; the results that are no failed assertion; the
  running float sum of a list of weights; the vertex ids a position array covers, the
  distance of two points and the area of a triangle in float operations, the raw weight
  of a line (the distance of its endpoints) and of a triangle (half the length of the
  cross product of its two edge vectors from vertex 0); the points whose coordinates are
  within a bound.
\<close>

definition em_inv :: "edge_map \<Rightarrow> bool" where
  "em_inv m \<longleftrightarrow> map snd m = map int [0..<length m] \<and> distinct (map fst m)
     \<and> (\<forall>k \<in> fst ` set m. em_edge k = k)"

definition tri_edges :: "vec3i \<Rightarrow> vec2i list" where
  "tri_edges t = [(nth3 t 0, nth3 t 1), (nth3 t 1, nth3 t 2), (nth3 t 2, nth3 t 0)]"

definition all_edges :: "vec2i list \<Rightarrow> vec3i list \<Rightarrow> vec2i list" where
  "all_edges lines triangles = lines @ concat (map tri_edges triangles)"

definition undirected :: "vec2i \<Rightarrow> int set" where
  "undirected e = {fst e, snd e}"

definition mesh_edges :: "vec2i list \<Rightarrow> vec3i list \<Rightarrow> int set set" where
  "mesh_edges lines triangles = undirected ` set (all_edges lines triangles)"

definition edge_keys :: "vec2i list \<Rightarrow> vec3i list \<Rightarrow> vec2i set" where
  "edge_keys lines triangles = em_edge ` set (all_edges lines triangles)"

definition elem_ids :: "vec2i list \<Rightarrow> vec3i list \<Rightarrow> int set" where
  "elem_ids lines triangles =
     (\<Union>l \<in> set lines. {fst l, snd l}) \<union> (\<Union>t \<in> set triangles. {nth3 t 0, nth3 t 1, nth3 t 2})"

definition edge_id :: "edge_map \<Rightarrow> vec2i \<Rightarrow> int" where
  "edge_id em e = (case map_of em (em_edge e) of None \<Rightarrow> - 1 | Some i \<Rightarrow> i)"

definition line_children :: "int \<Rightarrow> edge_map \<Rightarrow> vec2i \<Rightarrow> vec2i list" where
  "line_children n em l = [(fst l, int_add n (edge_id em l)), (int_add n (edge_id em l), snd l)]"

fun tri_children :: "int \<Rightarrow> edge_map \<Rightarrow> vec3i \<Rightarrow> vec3i list" where
  "tri_children n em (a, b, c) =
     [(a, int_add n (edge_id em (a, b)), int_add n (edge_id em (c, a))),
      (b, int_add n (edge_id em (b, c)), int_add n (edge_id em (a, b))),
      (c, int_add n (edge_id em (c, a)), int_add n (edge_id em (b, c))),
      (int_add n (edge_id em (a, b)), int_add n (edge_id em (b, c)), int_add n (edge_id em (c, a)))]"

fun edge_index :: "vec2i list \<Rightarrow> vec2i \<Rightarrow> nat" where
  "edge_index [] e = 0"
| "edge_index (x # xs) e = (if undirected x = undirected e then 0 else Suc (edge_index xs e))"

definition midpoint :: "int \<Rightarrow> vec2i list \<Rightarrow> vec2i \<Rightarrow> int" where
  "midpoint n edges e = n + int (edge_index edges e)"

definition halves :: "int \<Rightarrow> vec2i list \<Rightarrow> vec2i \<Rightarrow> vec2i list" where
  "halves n edges l = [(fst l, midpoint n edges l), (midpoint n edges l, snd l)]"

fun quarters :: "int \<Rightarrow> vec2i list \<Rightarrow> vec3i \<Rightarrow> vec3i list" where
  "quarters n edges (a, b, c) =
     [(a, midpoint n edges (a, b), midpoint n edges (a, c)),
      (b, midpoint n edges (b, c), midpoint n edges (b, a)),
      (c, midpoint n edges (c, a), midpoint n edges (c, b)),
      (midpoint n edges (a, b), midpoint n edges (b, c), midpoint n edges (c, a))]"

definition p2 :: "int \<Rightarrow> real" where
  "p2 k = 2 powr of_int k"

definition no_assert :: "error + 'a \<Rightarrow> bool" where
  "no_assert r = (r \<noteq> Inl AssertionFailed)"

fun psum32 :: "real list \<Rightarrow> nat \<Rightarrow> real" where
  "psum32 ws 0 = ws ! 0"
| "psum32 ws (Suc k) = rnd32 (ws ! Suc k + psum32 ws k)"

definition valid_id :: "'a list \<Rightarrow> int \<Rightarrow> bool" where
  "valid_id pos v = (0 \<le> v \<and> nat v < length pos)"

definition distance32 :: "vec3f \<Rightarrow> vec3f \<Rightarrow> error + real" where
  "distance32 p q = ebind (sub3 q p) length3"

definition line_weight :: "vec3f list \<Rightarrow> vec2i \<Rightarrow> error + real" where
  "line_weight pos f = distance32 (pos ! nat (fst f)) (pos ! nat (snd f))"

definition area32 :: "vec3f \<Rightarrow> vec3f \<Rightarrow> vec3f \<Rightarrow> error + real" where
  "area32 p q r =
     ebind (sub3 q p) (\<lambda>a.
     ebind (sub3 r p) (\<lambda>b.
     ebind (cross a b) (\<lambda>c.
     ebind (length3 c) (\<lambda>l. fdiv l 2))))"

definition triangle_weight :: "vec3f list \<Rightarrow> vec3i \<Rightarrow> error + real" where
  "triangle_weight pos f =
     area32 (pos ! nat (nth3 f 0)) (pos ! nat (nth3 f 1)) (pos ! nat (nth3 f 2))"

fun neg3 :: "vec3f \<Rightarrow> vec3f" where
  "neg3 (a, b, c) = (- a, - b, - c)"

fun coords_within :: "real \<Rightarrow> vec3f \<Rightarrow> bool" where
  "coords_within b (x, y, z) = (\<bar>x\<bar> \<le> b \<and> \<bar>y\<bar> \<le> b \<and> \<bar>z\<bar> \<le> b)"

section \<open>The error monad and its loops\<close>

lemma ebind_Inr [simp]: "ebind (Inr v) f = f v"
  by (simp add: ebind_def)

lemma ebind_Inl [simp]: "ebind (Inl x) f = Inl x"
  by (simp add: ebind_def)

lemma efoldl_append: "efoldl f s (xs @ ys) = ebind (efoldl f s xs) (\<lambda>s'. efoldl f s' ys)"
proof (induction xs arbitrary: s)
  case Nil
  show ?case by simp
next
  case (Cons x xs)
  show ?case
  proof (cases "f s x")
    case (Inl e)
    then show ?thesis by simp
  next
    case (Inr s')
    then show ?thesis by (simp add: Cons.IH)
  qed
qed

lemma get_at_ok: "i < length xs \<Longrightarrow> get_at xs (int i) = Inr (xs ! i)"
  by (simp add: get_at_def)

lemma set_at_ok: "i < length xs \<Longrightarrow> set_at xs (int i) v = Inr (xs[i := v])"
  by (simp add: set_at_def)

section \<open>Properties of the edge dictionary\<close>

lemma em_edge_swap: "em_edge (b, a) = em_edge (a, b)"
  by (simp add: em_edge_def min.commute max.commute)

lemma em_edge_idem [simp]: "em_edge (em_edge e) = em_edge e"
  by (simp add: em_edge_def)

lemma has_edge_iff: "has_edge m e \<longleftrightarrow> em_edge e \<in> fst ` set m"
  by (simp add: has_edge_def map_of_eq_None_iff)

lemma update_absent: "k \<notin> fst ` set m \<Longrightarrow> AList.update k v m = m @ [(k, v)]"
  by (induction m) auto

lemma insert_edge_present: "has_edge m e \<Longrightarrow> insert_edge m e = m"
  by (simp add: insert_edge_def)

lemma insert_edge_absent:
  "\<not> has_edge m e \<Longrightarrow> insert_edge m e = m @ [(em_edge e, int (length m))]"
  by (simp add: insert_edge_def em_size_def has_edge_iff update_absent)


lemma em_inv_Nil: "em_inv []"
  by (simp add: em_inv_def)

lemma em_inv_insert_edge: "em_inv m \<Longrightarrow> em_inv (insert_edge m e)"
  by (cases "has_edge m e") (auto simp: insert_edge_present insert_edge_absent em_inv_def has_edge_iff)

lemma keys_insert_edge: "fst ` set (insert_edge m e) = fst ` set m \<union> {em_edge e}"
  by (cases "has_edge m e") (force simp: insert_edge_present insert_edge_absent has_edge_iff)+

lemma em_inv_inserts: "em_inv m \<Longrightarrow> em_inv (foldl insert_edge m es)"
  by (induction es arbitrary: m) (simp_all add: em_inv_insert_edge)

lemma keys_inserts: "fst ` set (foldl insert_edge m es) = fst ` set m \<union> em_edge ` set es"
  by (induction es arbitrary: m) (auto simp: keys_insert_edge)

lemma em_inv_size: "em_inv m \<Longrightarrow> em_size m = card (fst ` set m)"
  unfolding em_inv_def em_size_def
  by (metis distinct_card length_map set_map)

lemma em_inv_nth: "em_inv m \<Longrightarrow> i < length m \<Longrightarrow> snd (m ! i) = int i"
  unfolding em_inv_def
  by (metis length_map nth_map nth_upt add_0 length_upt diff_zero)

lemma em_at_nth:
  assumes "em_inv m" "i < length m"
  shows "em_at m (fst (m ! i)) = Inr (int i)"
proof -
  have mem: "m ! i \<in> set m" using assms(2) by simp
  then have key: "fst (m ! i) \<in> fst ` set m" by (rule imageI)
  have canon: "em_edge (fst (m ! i)) = fst (m ! i)"
    using assms(1) key unfolding em_inv_def by blast
  have "distinct (map fst m)" using assms(1) by (simp add: em_inv_def)
  then have "map_of m (fst (m ! i)) = Some (snd (m ! i))"
    using mem by simp
  then show ?thesis
    by (simp add: em_at_def has_edge_def canon em_inv_nth [OF assms])
qed

lemma em_at_has_edge:
  assumes "em_inv m" "has_edge m e"
  shows "\<exists>i<length m. em_at m e = Inr (int i) \<and> fst (m ! i) = em_edge e"
proof -
  from assms(2) obtain p where p: "p \<in> set m" "fst p = em_edge e"
    by (auto simp: has_edge_iff)
  then obtain i where i: "i < length m" "m ! i = p"
    by (auto simp: in_set_conv_nth)
  have "em_at m (fst (m ! i)) = Inr (int i)"
    by (rule em_at_nth [OF assms(1) i(1)])
  then have "em_at m e = Inr (int i)"
    by (simp add: i(2) p(2) em_at_def has_edge_def split: if_splits)
  then show ?thesis using i p by auto
qed



lemma undirected_em_edge [simp]: "undirected (em_edge e) = undirected e"
  by (auto simp: undirected_def em_edge_def min_def max_def)

lemma em_edge_eq_iff: "em_edge a = em_edge b \<longleftrightarrow> undirected a = undirected b"
proof
  assume "em_edge a = em_edge b"
  then have "undirected (em_edge a) = undirected (em_edge b)" by simp
  then show "undirected a = undirected b" by simp
next
  assume u: "undirected a = undirected b"
  have "Min (undirected e) = fst (em_edge e) \<and> Max (undirected e) = snd (em_edge e)" for e
    by (cases e) (simp add: undirected_def em_edge_def)
  then have "fst (em_edge a) = fst (em_edge b)" "snd (em_edge a) = snd (em_edge b)"
    using u by metis+
  then show "em_edge a = em_edge b" by (simp add: prod_eq_iff)
qed

lemma undirected_edge_keys: "undirected ` edge_keys lines triangles = mesh_edges lines triangles"
  by (simp add: edge_keys_def mesh_edges_def image_image)

lemma card_edge_keys: "card (edge_keys lines triangles) = card (mesh_edges lines triangles)"
proof -
  have "inj_on undirected (edge_keys lines triangles)"
  proof (rule inj_onI)
    fix x y
    assume "x \<in> edge_keys lines triangles" "y \<in> edge_keys lines triangles"
      and u: "undirected x = undirected y"
    then obtain a b where ab: "x = em_edge a" "y = em_edge b"
      by (auto simp: edge_keys_def)
    have "undirected a = undirected b" using u by (simp add: ab)
    then show "x = y" by (simp add: ab em_edge_eq_iff)
  qed
  from card_image [OF this] show ?thesis by (simp add: undirected_edge_keys)
qed

lemma insert_triangle_eq: "insert_triangle m t = foldl insert_edge m (tri_edges t)"
  by (cases t) (simp add: insert_triangle_def tri_edges_def)

lemma foldl_insert_triangle:
  "foldl insert_triangle m ts = foldl insert_edge m (concat (map tri_edges ts))"
  by (induction ts arbitrary: m) (simp_all add: insert_triangle_eq)

lemma make_edge_map_eq:
  "make_edge_map lines triangles = foldl insert_edge [] (all_edges lines triangles)"
  by (simp add: make_edge_map_def all_edges_def foldl_insert_triangle)

lemma em_inv_make_edge_map: "em_inv (make_edge_map lines triangles)"
  by (simp add: make_edge_map_eq em_inv_inserts em_inv_Nil)

lemma keys_make_edge_map:
  "fst ` set (make_edge_map lines triangles) = edge_keys lines triangles"
  by (simp add: make_edge_map_eq keys_inserts edge_keys_def)

lemma has_edge_make_edge_map:
  "e \<in> set (all_edges lines triangles) \<Longrightarrow> has_edge (make_edge_map lines triangles) e"
  by (simp add: has_edge_iff keys_make_edge_map edge_keys_def)

lemma size_make_edge_map:
  "em_size (make_edge_map lines triangles) = card (mesh_edges lines triangles)"
  by (simp add: em_inv_size [OF em_inv_make_edge_map] keys_make_edge_map card_edge_keys)




section \<open>Properties of \<^verbatim>\<open>split_edges\<close>\<close>

lemma edge_id_swap: "edge_id em (b, a) = edge_id em (a, b)"
  by (simp add: edge_id_def em_edge_swap)

lemma has_edge_swap: "has_edge em (b, a) = has_edge em (a, b)"
  by (simp add: has_edge_def em_edge_swap)

lemma em_at_edge_id: "has_edge em e \<Longrightarrow> em_at em e = Inr (edge_id em e)"
  by (auto simp: em_at_def edge_id_def has_edge_def split: option.splits)

lemma split_line_eq:
  "has_edge em l \<Longrightarrow> split_line n em acc l = Inr (acc @ line_children n em l)"
  by (simp add: split_line_def em_at_edge_id line_children_def)

lemma split_lines_eq:
  "\<forall>l \<in> set ls. has_edge em l \<Longrightarrow>
   efoldl (split_line n em) acc ls = Inr (acc @ concat (map (line_children n em) ls))"
  by (induction ls arbitrary: acc) (simp_all add: split_line_eq)

lemma split_triangle_eq:
  assumes "\<forall>e \<in> set (tri_edges t). has_edge em e"
  shows "split_triangle n em acc t = Inr (acc @ tri_children n em t)"
proof (cases t)
  case (fields a b c)
  have h: "has_edge em (a, b)" "has_edge em (b, c)" "has_edge em (c, a)"
    using assms by (simp_all add: fields tri_edges_def)
  have h': "has_edge em (a, c)" "has_edge em (b, a)" "has_edge em (c, b)"
    using h by (simp_all add: has_edge_swap)
  show ?thesis
    by (simp add: fields split_triangle_def split_corner_def em_at_edge_id h h'
        edge_id_swap [of em a c] edge_id_swap [of em b a] edge_id_swap [of em c b])
qed

lemma split_triangles_eq:
  "\<forall>t \<in> set ts. \<forall>e \<in> set (tri_edges t). has_edge em e \<Longrightarrow>
   efoldl (split_triangle n em) acc ts = Inr (acc @ concat (map (tri_children n em) ts))"
  by (induction ts arbitrary: acc) (simp_all add: split_triangle_eq)

lemma length_line_children: "length (concat (map (line_children n em) ls)) = 2 * length ls"
  by (induction ls) (simp_all add: line_children_def)

lemma length_tri_children: "length (concat (map (tri_children n em) ts)) = 4 * length ts"
proof (induction ts)
  case Nil
  show ?case by simp
next
  case (Cons t ts)
  then show ?case by (cases t) simp
qed

lemma scatter_edges:
  "map snd m = map int [0..<length m] \<Longrightarrow> length m \<le> length ed \<Longrightarrow>
   efoldl (\<lambda>edges e. set_at edges (snd e) (fst e)) ed m = Inr (map fst m @ drop (length m) ed)"
proof (induction m rule: rev_induct)
  case Nil
  show ?case by simp
next
  case (snoc p m)
  have ids: "map snd m = map int [0..<length m]" and last: "snd p = int (length m)"
    using snoc.prems(1) by simp_all
  have len: "length m < length ed" using snoc.prems(2) by simp
  have IH: "efoldl (\<lambda>edges e. set_at edges (snd e) (fst e)) ed m = Inr (map fst m @ drop (length m) ed)"
    using snoc.IH ids len by simp
  have upd: "(map fst m @ drop (length m) ed)[length m := fst p]
      = map fst m @ fst p # drop (Suc (length m)) ed"
    using len by (simp add: list_update_append Cons_nth_drop_Suc [symmetric])
  show ?case
    using len by (simp add: efoldl_append IH last set_at_ok upd)
qed

lemma length_resize: "length (resize n xs) = n"
  by (simp add: resize_def)

lemma edges_of_map:
  assumes "em_inv m"
  shows "efoldl (\<lambda>edges e. set_at edges (snd e) (fst e)) (resize (em_size m) ed) m = Inr (map fst m)"
proof -
  have "map snd m = map int [0..<length m]" using assms by (simp add: em_inv_def)
  then show ?thesis
    using scatter_edges [of m "resize (em_size m) ed"]
    by (simp add: length_resize em_size_def)
qed

lemma split_edges_eq:
  "split_edges n lines triangles ed =
     Inr (concat (map (line_children n (make_edge_map lines triangles)) lines),
          concat (map (tri_children n (make_edge_map lines triangles)) triangles),
          map fst (make_edge_map lines triangles))"
proof -
  let ?em = "make_edge_map lines triangles"
  have l: "\<forall>l \<in> set lines. has_edge ?em l"
    by (simp add: has_edge_make_edge_map all_edges_def)
  have t: "\<forall>t \<in> set triangles. \<forall>e \<in> set (tri_edges t). has_edge ?em e"
    by (auto intro!: has_edge_make_edge_map simp: all_edges_def)
  show ?thesis
    by (simp add: split_edges_def Let_def split_lines_eq [OF l] split_triangles_eq [OF t]
        edges_of_map [OF em_inv_make_edge_map])
qed

lemma line_ids_children:
  "(\<Union>l \<in> set (concat (map (line_children n em) ls)). {fst l, snd l})
     = (\<Union>l \<in> set ls. {fst l, snd l}) \<union> (\<lambda>e. int_add n (edge_id em e)) ` set ls"
  by (induction ls) (auto simp: line_children_def)

lemma tri_ids_children_one:
  "(\<Union>t \<in> set (tri_children n em t). {nth3 t 0, nth3 t 1, nth3 t 2})
     = {nth3 t 0, nth3 t 1, nth3 t 2} \<union> (\<lambda>e. int_add n (edge_id em e)) ` set (tri_edges t)"
  by (cases t) (auto simp: tri_edges_def)

lemma tri_ids_children:
  "(\<Union>t \<in> set (concat (map (tri_children n em) ts)). {nth3 t 0, nth3 t 1, nth3 t 2})
     = (\<Union>t \<in> set ts. {nth3 t 0, nth3 t 1, nth3 t 2})
       \<union> (\<lambda>e. int_add n (edge_id em e)) ` set (concat (map tri_edges ts))"
proof (induction ts)
  case Nil
  show ?case by simp
next
  case (Cons t ts)
  show ?case
    using Cons.IH tri_ids_children_one [of n em t]
    by (simp add: image_Un Un_ac)
qed

lemma elem_ids_children:
  "elem_ids (concat (map (line_children n em) ls)) (concat (map (tri_children n em) ts))
     = elem_ids ls ts \<union> (\<lambda>e. int_add n (edge_id em e)) ` set (all_edges ls ts)"
  unfolding elem_ids_def line_ids_children tri_ids_children all_edges_def
  by (simp add: image_Un Un_ac)

lemma edge_id_nth:
  assumes "em_inv m" "i < length m"
  shows "edge_id m (fst (m ! i)) = int i"
  using em_at_nth [OF assms] assms
  by (simp add: em_at_def edge_id_def split: if_splits option.splits)

lemma edge_id_image:
  assumes inv: "em_inv m" and keys: "fst ` set m = em_edge ` set es"
  shows "edge_id m ` set es = int ` {0..<length m}"
proof (intro equalityI subsetI)
  fix v assume "v \<in> edge_id m ` set es"
  then obtain e where e: "e \<in> set es" "v = edge_id m e" by auto
  have "has_edge m e" using e(1) by (simp add: has_edge_iff keys)
  from em_at_has_edge [OF inv this] obtain i where "i < length m" "em_at m e = Inr (int i)"
    by auto
  then have "edge_id m e = int i"
    by (simp add: em_at_def edge_id_def split: if_splits option.splits)
  then show "v \<in> int ` {0..<length m}" using \<open>i < length m\<close> e(2) by simp
next
  fix v assume "v \<in> int ` {0..<length m}"
  then obtain i where i: "i < length m" "v = int i" by auto
  have "fst (m ! i) \<in> fst ` set m" using i(1) by simp
  then obtain e where e: "e \<in> set es" "fst (m ! i) = em_edge e" using keys by auto
  have "edge_id m e = edge_id m (fst (m ! i))" by (simp add: edge_id_def e(2))
  then have "edge_id m e = v" by (simp add: edge_id_nth [OF inv i(1)] i(2))
  then show "v \<in> edge_id m ` set es" using e(1) by auto
qed

lemma edge_id_make_edge_map:
  "edge_id (make_edge_map ls ts) ` set (all_edges ls ts)
     = int ` {0..<card (mesh_edges ls ts)}"
proof -
  have "edge_id (make_edge_map ls ts) ` set (all_edges ls ts)
      = int ` {0..<length (make_edge_map ls ts)}"
    by (rule edge_id_image [OF em_inv_make_edge_map])
       (simp add: keys_make_edge_map edge_keys_def)
  then show ?thesis using size_make_edge_map [of ls ts] by (simp add: em_size_def)
qed

lemma int_add_exact:
  "- 2147483648 \<le> a + b \<Longrightarrow> a + b \<le> 2147483647 \<Longrightarrow> int_add a b = a + b"
  by (simp add: int_add_def)

lemma midpoint_ids:
  assumes n: "0 \<le> n" and fits: "n + int (card (mesh_edges ls ts)) \<le> 2147483648"
  shows "(\<lambda>e. int_add n (edge_id (make_edge_map ls ts) e)) ` set (all_edges ls ts)
     = {n ..< n + int (card (mesh_edges ls ts))}"
proof -
  have exact: "int_add n (int i) = n + int i" if "i < card (mesh_edges ls ts)" for i
    by (rule int_add_exact) (use n fits that in simp_all)
  have "(\<lambda>e. int_add n (edge_id (make_edge_map ls ts) e)) ` set (all_edges ls ts)
      = int_add n ` (edge_id (make_edge_map ls ts) ` set (all_edges ls ts))"
    by (simp add: image_image)
  also have "\<dots> = int_add n ` int ` {0..<card (mesh_edges ls ts)}"
    by (simp only: edge_id_make_edge_map)
  also have "\<dots> = {n ..< n + int (card (mesh_edges ls ts))}"
  proof (intro equalityI subsetI)
    fix v assume "v \<in> int_add n ` int ` {0..<card (mesh_edges ls ts)}"
    then obtain i where "i < card (mesh_edges ls ts)" "v = int_add n (int i)" by auto
    then show "v \<in> {n ..< n + int (card (mesh_edges ls ts))}" by (simp add: exact)
  next
    fix v assume v: "v \<in> {n ..< n + int (card (mesh_edges ls ts))}"
    then have i: "nat (v - n) < card (mesh_edges ls ts)" by auto
    have "v = n + int (nat (v - n))" using v by simp
    then have "v = int_add n (int (nat (v - n)))" using exact [OF i] by simp
    moreover have "nat (v - n) \<in> {0..<card (mesh_edges ls ts)}" using i by simp
    ultimately show "v \<in> int_add n ` int ` {0..<card (mesh_edges ls ts)}" by blast
  qed
  finally show ?thesis .
qed

lemma line_children_new:
  "c \<in> set (concat (map (line_children n em) ls)) \<Longrightarrow>
   \<exists>e \<in> set ls. fst c = int_add n (edge_id em e) \<or> snd c = int_add n (edge_id em e)"
  by (induction ls) (auto simp: line_children_def)

lemma tri_children_new:
  "c \<in> set (concat (map (tri_children n em) ts)) \<Longrightarrow>
   \<exists>e \<in> set (concat (map tri_edges ts)). nth3 c 1 = int_add n (edge_id em e)"
proof (induction ts)
  case Nil
  then show ?case by simp
next
  case (Cons t ts)
  show ?case
  proof (cases "c \<in> set (tri_children n em t)")
    case True
    then have "\<exists>e \<in> set (tri_edges t). nth3 c 1 = int_add n (edge_id em e)"
      by (cases t) (auto simp: tri_edges_def)
    then show ?thesis by auto
  next
    case False
    then have "c \<in> set (concat (map (tri_children n em) ts))" using Cons.prems by simp
    from Cons.IH [OF this] show ?thesis by auto
  qed
qed

lemma em_edge_ordered: "fst (em_edge e) \<le> snd (em_edge e)"
  by (simp add: em_edge_def)

lemma edge_index_map_of:
  assumes "\<forall>x \<in> fst ` set m. em_edge x = x"
    and "map snd m = map int [k..<k + length m]"
    and "em_edge e \<in> fst ` set m"
  shows "map_of m (em_edge e) = Some (int (k + edge_index (map fst m) e))"
  using assms
proof (induction m arbitrary: k)
  case Nil
  then show ?case by simp
next
  case (Cons p m)
  have canon: "em_edge (fst p) = fst p" using Cons.prems(1) by simp
  have "[k..<k + Suc (length m)] = k # [Suc k..<k + Suc (length m)]"
    by (rule upt_conv_Cons) simp
  then have ids: "snd p = int k" "map snd m = map int [Suc k..<Suc k + length m]"
    using Cons.prems(2) by simp_all
  show ?case
  proof (cases "fst p = em_edge e")
    case True
    then have "undirected (fst p) = undirected e" by (metis undirected_em_edge)
    then show ?thesis using True ids(1) by (cases p) simp
  next
    case False
    then have ne: "undirected (fst p) \<noteq> undirected e"
      using canon em_edge_eq_iff [of "fst p" e] by simp
    have "em_edge e \<in> fst ` set m" using Cons.prems(3) False by auto
    then have "map_of m (em_edge e) = Some (int (Suc k + edge_index (map fst m) e))"
      using Cons.prems(1) ids(2) by (intro Cons.IH) simp_all
    then show ?thesis using False ne by (cases p) simp
  qed
qed

lemma edge_id_index:
  assumes "em_inv m" "has_edge m e"
  shows "edge_id m e = int (edge_index (map fst m) e)"
proof -
  have "map_of m (em_edge e) = Some (int (0 + edge_index (map fst m) e))"
    by (rule edge_index_map_of) (use assms in \<open>auto simp: em_inv_def has_edge_iff\<close>)
  then show ?thesis by (simp add: edge_id_def)
qed

lemma line_children_halves:
  assumes "em_inv m" "has_edge m l"
    and "int_add n (edge_id m l) = n + edge_id m l"
  shows "line_children n m l = halves n (map fst m) l"
  using assms by (simp add: line_children_def halves_def midpoint_def edge_id_index)

lemma tri_children_quarters:
  assumes inv: "em_inv m" and has: "\<forall>e \<in> set (tri_edges t). has_edge m e"
    and exact: "\<forall>e \<in> set (tri_edges t). int_add n (edge_id m e) = n + edge_id m e"
  shows "tri_children n m t = quarters n (map fst m) t"
proof (cases t)
  case (fields a b c)
  have h: "has_edge m (a, b)" "has_edge m (b, c)" "has_edge m (c, a)"
    using has by (simp_all add: fields tri_edges_def)
  have x: "int_add n (edge_id m (a, b)) = n + edge_id m (a, b)"
      "int_add n (edge_id m (b, c)) = n + edge_id m (b, c)"
      "int_add n (edge_id m (c, a)) = n + edge_id m (c, a)"
    using exact by (simp_all add: fields tri_edges_def)
  have i: "edge_id m (a, b) = int (edge_index (map fst m) (a, b))"
      "edge_id m (b, c) = int (edge_index (map fst m) (b, c))"
      "edge_id m (c, a) = int (edge_index (map fst m) (c, a))"
    using h by (simp_all add: edge_id_index [OF inv])
  have sw: "edge_index es (y, x) = edge_index es (x, y)" for es :: "vec2i list" and x y
    by (induction es) (simp_all add: undirected_def insert_commute)
  show ?thesis
    by (simp add: fields x midpoint_def i [symmetric] sw [of _ a c] sw [of _ b a] sw [of _ c b])
qed

text \<open>
  Claim C3, as amended. For a mesh with \<open>n\<close> vertices (every vertex id of its lines and
  triangles in \<open>[0, n)\<close>) and \<open>e\<close> distinct undirected edges, such that the ids up to
  \<open>n + e - 1\<close> fit the 32 bits of an \<^verbatim>\<open>int\<close>, \<^const>\<open>split_edges\<close> returns, whatever the old
  content of \<^verbatim>\<open>edges\<close>: elements whose vertex ids from \<open>n\<close> on are exactly \<open>[n, n + e)\<close>, all
  ids within \<open>[0, n + e)\<close>; an edge list of length \<open>e\<close> without duplicates that holds each
  undirected edge of the mesh once, smaller id first, \<open>edges ! i\<close> being the edge that the
  dictionary gives the id \<open>i\<close>; for every line its two halves and for every triangle its
  three corner triangles and its centre triangle, in the order of the input, the midpoint
  of an edge being \<open>n\<close> plus the position of the edge in \<^verbatim>\<open>edges\<close>; none of them is a line
  or triangle of the input. Here \<open>e\<close> is counted on the sets of endpoints, not with the
  dictionary. Without the bound the sum \<^verbatim>\<open>nverts + id\<close> overflows: with \<open>n = 2147483647\<close>
  the triangle \<open>(0, 1, 2)\<close> gets the new vertex ids \<open>2147483647\<close>, \<open>- 2147483648\<close> and
  \<open>- 2147483647\<close>.
\<close>

theorem split_edges_new_vertex_ids:
  assumes n: "0 \<le> n" and wf: "\<forall>v \<in> elem_ids lines triangles. 0 \<le> v \<and> v < n"
    and fits: "n + int (card (mesh_edges lines triangles)) \<le> 2147483648"
  shows "\<exists>tess_lines tess_triangles edges.
      split_edges n lines triangles edges0 = Inr (tess_lines, tess_triangles, edges)
    \<and> {v \<in> elem_ids tess_lines tess_triangles. n \<le> v}
        = {n ..< n + int (card (mesh_edges lines triangles))}
    \<and> elem_ids tess_lines tess_triangles \<subseteq> {0 ..< n + int (card (mesh_edges lines triangles))}
    \<and> length edges = card (mesh_edges lines triangles)
    \<and> distinct edges
    \<and> undirected ` set edges = mesh_edges lines triangles
    \<and> (\<forall>i < length edges. em_at (make_edge_map lines triangles) (edges ! i) = Inr (int i)
          \<and> fst (edges ! i) \<le> snd (edges ! i))
    \<and> tess_lines = concat (map (halves n edges) lines)
    \<and> tess_triangles = concat (map (quarters n edges) triangles)
    \<and> length tess_lines = 2 * length lines
    \<and> length tess_triangles = 4 * length triangles
    \<and> set tess_lines \<inter> set lines = {}
    \<and> set tess_triangles \<inter> set triangles = {}"
proof -
  let ?em = "make_edge_map lines triangles"
  let ?e = "card (mesh_edges lines triangles)"
  let ?tl = "concat (map (line_children n ?em) lines)"
  let ?tt = "concat (map (tri_children n ?em) triangles)"
  let ?ed = "map fst ?em"
  have inv: "em_inv ?em" by (rule em_inv_make_edge_map)
  have len: "length ?em = ?e" using size_make_edge_map [of lines triangles] by (simp add: em_size_def)
  have ids: "elem_ids ?tl ?tt = elem_ids lines triangles \<union> {n ..< n + int ?e}"
    by (simp add: elem_ids_children midpoint_ids [OF n fits])
  have new: "{v \<in> elem_ids ?tl ?tt. n \<le> v} = {n ..< n + int ?e}"
    unfolding ids using wf by auto
  have all: "elem_ids ?tl ?tt \<subseteq> {0 ..< n + int ?e}"
    unfolding ids using wf n by auto
  have mid: "int_add n (edge_id ?em e) \<in> {n ..< n + int ?e}"
    if "e \<in> set (all_edges lines triangles)" for e
    using that midpoint_ids [OF n fits] by blast
  have exact: "int_add n (edge_id ?em e) = n + edge_id ?em e"
    if e: "e \<in> set (all_edges lines triangles)" for e
  proof -
    have "edge_id ?em e \<in> edge_id ?em ` set (all_edges lines triangles)" using e by simp
    then have "edge_id ?em e \<in> int ` {0..<?e}" by (simp only: edge_id_make_edge_map)
    then have "0 \<le> edge_id ?em e" "edge_id ?em e < int ?e" by auto
    then show ?thesis using n fits by (intro int_add_exact) simp_all
  qed
  have e4: "length ?ed = ?e" by (simp add: len)
  have e5: "distinct ?ed" using inv by (simp add: em_inv_def)
  have "undirected ` set ?ed = undirected ` edge_keys lines triangles"
    by (simp add: keys_make_edge_map)
  then have e6: "undirected ` set ?ed = mesh_edges lines triangles"
    by (simp only: undirected_edge_keys)
  have e7: "\<forall>i < length ?ed. em_at ?em (?ed ! i) = Inr (int i) \<and> fst (?ed ! i) \<le> snd (?ed ! i)"
  proof (intro allI impI)
    fix i assume "i < length ?ed"
    then have i: "i < length ?em" by simp
    have "fst (?em ! i) \<in> fst ` set ?em" using i by simp
    then have "em_edge (fst (?em ! i)) = fst (?em ! i)" using inv unfolding em_inv_def by blast
    then have "fst (fst (?em ! i)) \<le> snd (fst (?em ! i))"
      using em_edge_ordered [of "fst (?em ! i)"] by simp
    then show "em_at ?em (?ed ! i) = Inr (int i) \<and> fst (?ed ! i) \<le> snd (?ed ! i)"
      using em_at_nth [OF inv i] i by simp
  qed
  have c1: "?tl = concat (map (halves n ?ed) lines)"
  proof -
    have "map (line_children n ?em) lines = map (halves n ?ed) lines"
    proof (rule map_cong [OF refl])
      fix l assume "l \<in> set lines"
      then have l: "l \<in> set (all_edges lines triangles)" by (simp add: all_edges_def)
      show "line_children n ?em l = halves n ?ed l"
        by (rule line_children_halves [OF inv has_edge_make_edge_map [OF l] exact [OF l]])
    qed
    then show ?thesis by (rule arg_cong)
  qed
  have c2: "?tt = concat (map (quarters n ?ed) triangles)"
  proof -
    have "map (tri_children n ?em) triangles = map (quarters n ?ed) triangles"
    proof (rule map_cong [OF refl])
      fix t assume t: "t \<in> set triangles"
      have sub: "e \<in> set (all_edges lines triangles)" if "e \<in> set (tri_edges t)" for e
        using that t by (auto simp: all_edges_def)
      show "tri_children n ?em t = quarters n ?ed t"
        by (rule tri_children_quarters [OF inv])
           (use sub has_edge_make_edge_map exact in blast)+
    qed
    then show ?thesis by (rule arg_cong)
  qed
  have l1: "set ?tl \<inter> set lines = {}"
  proof (rule ccontr)
    assume "set ?tl \<inter> set lines \<noteq> {}"
    then obtain c where c: "c \<in> set ?tl" "c \<in> set lines" by auto
    from line_children_new [OF c(1)] obtain e where
      e: "e \<in> set lines" "fst c = int_add n (edge_id ?em e) \<or> snd c = int_add n (edge_id ?em e)"
      by auto
    have "e \<in> set (all_edges lines triangles)" using e(1) by (simp add: all_edges_def)
    from mid [OF this] have "n \<le> int_add n (edge_id ?em e)" by simp
    then have "n \<le> fst c \<or> n \<le> snd c" using e(2) by auto
    moreover have "fst c \<in> elem_ids lines triangles" "snd c \<in> elem_ids lines triangles"
      using c(2) by (auto simp: elem_ids_def)
    ultimately show False using wf by auto
  qed
  have l2: "set ?tt \<inter> set triangles = {}"
  proof (rule ccontr)
    assume "set ?tt \<inter> set triangles \<noteq> {}"
    then obtain c where c: "c \<in> set ?tt" "c \<in> set triangles" by auto
    from tri_children_new [OF c(1)] obtain e where
      e: "e \<in> set (concat (map tri_edges triangles))" "nth3 c 1 = int_add n (edge_id ?em e)"
      by auto
    have "e \<in> set (all_edges lines triangles)" using e(1) by (simp add: all_edges_def)
    from mid [OF this] have "n \<le> nth3 c 1" using e(2) by simp
    moreover have "nth3 c 1 \<in> elem_ids lines triangles"
      using c(2) by (auto simp: elem_ids_def)
    ultimately show False using wf by auto
  qed
  show ?thesis
    by (intro exI [of _ ?tl] exI [of _ ?tt] exI [of _ ?ed] conjI split_edges_eq
        new all e4 e5 e6 e7 c1 c2 l1 l2 length_line_children length_tri_children)
qed

lemma card_mesh_edges_le: "card (mesh_edges lines triangles) \<le> length (all_edges lines triangles)"
  unfolding mesh_edges_def
  by (rule order_trans [OF card_image_le card_length]) simp

theorem split_edges_new_vertex_ids_witness:
  "\<exists>tess_lines tess_triangles edges.
      split_edges 3 [(0, 1)] [(0, 1, 2)] [] = Inr (tess_lines, tess_triangles, edges)
    \<and> {v \<in> elem_ids tess_lines tess_triangles. 3 \<le> v}
        = {3 ..< 3 + int (card (mesh_edges [(0, 1)] [(0, 1, 2)]))}
    \<and> length edges = card (mesh_edges [(0, 1)] [(0, 1, 2)])
    \<and> undirected ` set edges = mesh_edges [(0, 1)] [(0, 1, 2)]
    \<and> tess_lines = concat (map (halves 3 edges) [(0, 1)])
    \<and> tess_triangles = concat (map (quarters 3 edges) [(0, 1, 2)])
    \<and> set tess_lines \<inter> set [(0, 1)] = {}
    \<and> set tess_triangles \<inter> set [(0, 1, 2)] = {}"
proof -
  have "(0::int) \<le> 3" by simp
  moreover have "\<forall>v \<in> elem_ids [(0, 1)] [(0, 1, 2)]. 0 \<le> v \<and> v < 3"
    by (simp add: elem_ids_def)
  moreover have "3 + int (card (mesh_edges [(0, 1)] [(0, 1, 2)])) \<le> 2147483648"
    using card_mesh_edges_le [of "[(0, 1)]" "[(0, 1, 2)]"]
    by (simp add: all_edges_def tri_edges_def)
  ultimately show ?thesis
    using split_edges_new_vertex_ids [of 3 "[(0, 1)]" "[(0, 1, 2)]" "[]"] by blast
qed

theorem split_edges_wraps_counterexample:
  "split_edges 2147483647 [] [(0, 1, 2)] []
     = Inr ([], [(0, 2147483647, - 2147483647), (1, - 2147483648, 2147483647),
                 (2, - 2147483647, - 2147483648),
                 (2147483647, - 2147483648, - 2147483647)],
            [(0, 1), (1, 2), (0, 2)])
   \<and> elem_ids [] [(0, 1, 2)] = {0, 1, 2}
   \<and> card (mesh_edges [] [(0, 1, 2)]) = 3
   \<and> - 2147483648 \<in> elem_ids [] [(0, 2147483647, - 2147483647), (1, - 2147483648, 2147483647),
                 (2, - 2147483647, - 2147483648),
                 (2147483647, - 2147483648, - 2147483647)]
   \<and> - 2147483648 \<notin> {2147483647 ..< 2147483647 + int 3}"
proof -
  have em: "make_edge_map [] [(0, 1, 2)] = [((0, 1), 0), ((1, 2), 1), ((0, 2), 2)]"
    by (simp add: make_edge_map_def insert_triangle_def insert_edge_def has_edge_def
        em_edge_def em_size_def)
  have run: "split_edges 2147483647 [] [(0, 1, 2)] []
     = Inr ([], [(0, 2147483647, - 2147483647), (1, - 2147483648, 2147483647),
                 (2, - 2147483647, - 2147483648),
                 (2147483647, - 2147483648, - 2147483647)],
            [(0, 1), (1, 2), (0, 2)])"
    unfolding split_edges_eq em
    by (simp add: edge_id_def em_edge_def int_add_def)
  have ids: "elem_ids [] [(0, 1, 2)] = {0, 1, 2}"
    by (simp add: elem_ids_def)
  have card: "card (mesh_edges [] [(0, 1, 2)]) = 3"
    by (simp add: mesh_edges_def all_edges_def tri_edges_def undirected_def doubleton_eq_iff)
  have neg: "- 2147483648 \<in> elem_ids [] [(0, 2147483647, - 2147483647),
                 (1, - 2147483648, 2147483647), (2, - 2147483647, - 2147483648),
                 (2147483647, - 2147483648, - 2147483647)]"
    by (simp add: elem_ids_def)
  have out: "- 2147483648 \<notin> {2147483647 ..< 2147483647 + int 3}" by simp
  show ?thesis using run ids card neg out by (intro conjI)
qed



text \<open>
  Claim C8. For \<open>nverts = 3\<close>, \<open>triangles = [(0, 1, 2)]\<close> and no lines, the edges get the ids
  \<open>edge (0, 1) = 0\<close>, \<open>edge (1, 2) = 1\<close>, \<open>edge (0, 2) = 2\<close>, and \<^const>\<open>split_edges\<close> returns
  \<open>edges = [(0, 1), (1, 2), (0, 2)]\<close>,
  \<open>tess_triangles = [(0, 3, 5), (1, 4, 3), (2, 5, 4), (3, 4, 5)]\<close> and \<open>tess_lines = []\<close>.
\<close>

theorem split_edges_single_triangle:
  "split_edges 3 [] [(0, 1, 2)] edges0
     = Inr ([], [(0, 3, 5), (1, 4, 3), (2, 5, 4), (3, 4, 5)], [(0, 1), (1, 2), (0, 2)])
   \<and> em_at (make_edge_map [] [(0, 1, 2)]) (0, 1) = Inr 0
   \<and> em_at (make_edge_map [] [(0, 1, 2)]) (1, 2) = Inr 1
   \<and> em_at (make_edge_map [] [(0, 1, 2)]) (0, 2) = Inr 2"
proof -
  have em: "make_edge_map [] [(0, 1, 2)] = [((0, 1), 0), ((1, 2), 1), ((0, 2), 2)]"
    by (simp add: make_edge_map_def insert_triangle_def insert_edge_def has_edge_def
        em_edge_def em_size_def)
  show ?thesis
    unfolding split_edges_eq em
    by (simp add: edge_id_def em_edge_def em_at_def has_edge_def int_add_def)
qed

section \<open>Rounding to single precision\<close>

lemma round_even_of_int [simp]: "round_even (of_int m) = m"
  by (simp add: round_even_def)

lemma round_even_bounds: "\<lfloor>y\<rfloor> \<le> round_even y" "round_even y \<le> \<lfloor>y\<rfloor> + 1"
  by (simp_all add: round_even_def Let_def)

lemma round_even_mono: "x \<le> y \<Longrightarrow> round_even x \<le> round_even y"
proof -
  assume xy: "x \<le> y"
  have fl: "\<lfloor>x\<rfloor> \<le> \<lfloor>y\<rfloor>" using xy by (rule floor_mono)
  show ?thesis
  proof (cases "\<lfloor>x\<rfloor> = \<lfloor>y\<rfloor>")
    case True
    then have "x - of_int \<lfloor>x\<rfloor> \<le> y - of_int \<lfloor>y\<rfloor>" using xy by simp
    then show ?thesis using True by (auto simp: round_even_def Let_def)
  next
    case False
    then have "\<lfloor>x\<rfloor> + 1 \<le> \<lfloor>y\<rfloor>" using fl by simp
    then show ?thesis
      using round_even_bounds(2) [of x] round_even_bounds(1) [of y] by linarith
  qed
qed

lemma round_even_cases:
  obtains f d where "y = of_int f + d" "0 \<le> d" "d < 1" "\<lfloor>y\<rfloor> = f"
    "round_even y = (if d < 1 / 2 then f else if 1 / 2 < d then f + 1
                     else if even f then f else f + 1)"
proof -
  have "y = of_int \<lfloor>y\<rfloor> + (y - of_int \<lfloor>y\<rfloor>)" by simp
  moreover have "0 \<le> y - of_int \<lfloor>y\<rfloor>" "y - of_int \<lfloor>y\<rfloor> < 1" by linarith+
  moreover have "round_even y = (if y - of_int \<lfloor>y\<rfloor> < 1 / 2 then \<lfloor>y\<rfloor>
      else if 1 / 2 < y - of_int \<lfloor>y\<rfloor> then \<lfloor>y\<rfloor> + 1
      else if even \<lfloor>y\<rfloor> then \<lfloor>y\<rfloor> else \<lfloor>y\<rfloor> + 1)"
    by (simp add: round_even_def Let_def)
  ultimately show ?thesis using that by blast
qed

lemma round_even_minus: "round_even (- y) = - round_even y"
proof (cases "y = of_int \<lfloor>y\<rfloor>")
  case True
  then obtain m :: int where "y = of_int m" ..
  then have "- y = of_int (- m)" by simp
  then show ?thesis using \<open>y = of_int m\<close> by (simp only: round_even_of_int)
next
  case False
  obtain f d where y: "y = of_int f + d" "0 \<le> d" "d < 1" "\<lfloor>y\<rfloor> = f"
    and r: "round_even y = (if d < 1 / 2 then f else if 1 / 2 < d then f + 1
                     else if even f then f else f + 1)"
    by (rule round_even_cases)
  have d0: "0 < d" using False y by auto
  have my: "- y = of_int (- f - 1) + (1 - d)" using y(1) by simp
  have "of_int (- f - 1) \<le> - y" "- y < of_int (- f - 1) + 1"
    using my y(2,3) d0 by linarith+
  then have fl: "\<lfloor>- y\<rfloor> = - f - 1" by (intro floor_unique) auto
  have "round_even (- y) = (if (1 - d) < 1 / 2 then - f - 1 else if 1 / 2 < (1 - d) then - f
      else if even (- f - 1) then - f - 1 else - f)"
    unfolding round_even_def Let_def fl using my by simp
  then show ?thesis using r by auto
qed

lemma round_even_error: "\<bar>of_int (round_even y) - y\<bar> \<le> 1 / 2"
proof -
  obtain f d where y: "y = of_int f + d" "0 \<le> d" "d < 1"
    and r: "round_even y = (if d < 1 / 2 then f else if 1 / 2 < d then f + 1
                     else if even f then f else f + 1)"
    by (rule round_even_cases)
  have "\<bar>of_int (round_even y) - (of_int f + d)\<bar> \<le> 1 / 2"
    using y(2,3) by (auto simp: r abs_if)
  then show ?thesis using y(1) by simp
qed

lemma round_even_le: "y \<le> of_int n \<Longrightarrow> round_even y \<le> n"
  using round_even_mono [of y "of_int n"] by simp

lemma round_even_ge: "of_int n \<le> y \<Longrightarrow> n \<le> round_even y"
  using round_even_mono [of "of_int n" y] by simp

lemma p2_pos [simp]: "0 < p2 k"
  by (simp add: p2_def)

lemma p2_nonneg [simp]: "0 \<le> p2 k"
  by (simp add: p2_def)

lemma p2_neq0 [simp]: "p2 k \<noteq> 0"
  by (simp add: p2_def)

lemma p2_add: "p2 (a + b) = p2 a * p2 b"
  by (simp add: p2_def powr_add)

lemma p2_diff: "p2 (a - b) = p2 a / p2 b"
  by (simp add: p2_def powr_diff)

lemma p2_mono: "a \<le> b \<Longrightarrow> p2 a \<le> p2 b"
  by (simp add: p2_def)

lemma p2_nat: "p2 (int n) = 2 ^ n"
  by (simp add: p2_def powr_realpow)

lemma p2_0 [simp]: "p2 0 = 1"
  by (simp add: p2_def)

lemma p2_of_nonneg: "0 \<le> k \<Longrightarrow> p2 k = of_int (2 ^ nat k)"
  using p2_nat [of "nat k"] by simp

lemma f32_quantum_p2: "f32_quantum x = p2 (f32_exponent x - 23)"
  by (simp add: f32_quantum_def p2_def)

lemma f32_exponent_ge: "- 126 \<le> f32_exponent x"
  by (simp add: f32_exponent_def)

lemma f32_exponent_minus [simp]: "f32_exponent (- x) = f32_exponent x"
  by (simp add: f32_exponent_def)

lemma floor_log2:
  assumes "0 < a"
  shows "p2 \<lfloor>log 2 a\<rfloor> \<le> a" "a < p2 (\<lfloor>log 2 a\<rfloor> + 1)"
  using floor_log_eq_powr_iff [of a 2 "\<lfloor>log 2 a\<rfloor>"] assms by (simp_all add: p2_def)

lemma floor_log2_eqI: "0 < a \<Longrightarrow> p2 k \<le> a \<Longrightarrow> a < p2 (k + 1) \<Longrightarrow> \<lfloor>log 2 a\<rfloor> = k"
  using floor_log_eq_powr_iff [of a 2 k] by (simp add: p2_def)

lemma f32_exponent_upper: "x \<noteq> 0 \<Longrightarrow> \<bar>x\<bar> < p2 (f32_exponent x + 1)"
proof -
  assume "x \<noteq> 0"
  then have a: "0 < \<bar>x\<bar>" by simp
  have "\<bar>x\<bar> < p2 (\<lfloor>log 2 \<bar>x\<bar>\<rfloor> + 1)" by (rule floor_log2 [OF a])
  also have "\<dots> \<le> p2 (f32_exponent x + 1)"
    by (rule p2_mono) (simp add: f32_exponent_def)
  finally show ?thesis .
qed

lemma f32_exponent_lower:
  "x \<noteq> 0 \<Longrightarrow> f32_exponent x \<noteq> - 126 \<Longrightarrow> p2 (f32_exponent x) \<le> \<bar>x\<bar>"
proof -
  assume "x \<noteq> 0" and n: "f32_exponent x \<noteq> - 126"
  then have a: "0 < \<bar>x\<bar>" by simp
  have "f32_exponent x = \<lfloor>log 2 \<bar>x\<bar>\<rfloor>" using n by (simp add: f32_exponent_def max_def split: if_splits)
  then show ?thesis using floor_log2(1) [OF a] by simp
qed

lemma f32_exponent_eqI:
  assumes "p2 E \<le> \<bar>x\<bar>" "\<bar>x\<bar> < p2 (E + 1)" "- 126 \<le> E"
  shows "f32_exponent x = E"
proof -
  have "0 < \<bar>x\<bar>" using assms(1) p2_pos [of E] by linarith
  then have "\<lfloor>log 2 \<bar>x\<bar>\<rfloor> = E" using assms(1,2) by (rule floor_log2_eqI)
  then show ?thesis using assms(3) by (simp add: f32_exponent_def)
qed

lemma f32_exponent_subnormal:
  assumes "x \<noteq> 0" "\<bar>x\<bar> < p2 (- 126)"
  shows "f32_exponent x = - 126"
proof (rule ccontr)
  assume n: "f32_exponent x \<noteq> - 126"
  then have "- 126 < f32_exponent x" using f32_exponent_ge [of x] by simp
  then have "p2 (- 126) \<le> p2 (f32_exponent x)" by (intro p2_mono) simp
  then show False using f32_exponent_lower [OF assms(1) n] assms(2) by simp
qed

lemma f32_exponent_mono:
  assumes "0 < x" "x \<le> y"
  shows "f32_exponent x \<le> f32_exponent y"
proof -
  have "log 2 \<bar>x\<bar> \<le> log 2 \<bar>y\<bar>" using assms by simp
  then have "\<lfloor>log 2 \<bar>x\<bar>\<rfloor> \<le> \<lfloor>log 2 \<bar>y\<bar>\<rfloor>" by (rule floor_mono)
  then show ?thesis by (simp add: f32_exponent_def)
qed

lemma rnd32_0 [simp]: "rnd32 0 = 0"
  by (simp add: rnd32_def)

lemma f32_quantum_pos [simp]: "0 < f32_quantum x"
  by (simp add: f32_quantum_p2)

lemma f32_quantum_nonneg [simp]: "0 \<le> f32_quantum x"
  using f32_quantum_pos [of x] by (rule less_imp_le)

lemma f32_quantum_neq0 [simp]: "f32_quantum x \<noteq> 0"
  by (simp add: f32_quantum_p2)

lemma f32_quantum_minus [simp]: "f32_quantum (- x) = f32_quantum x"
  by (simp add: f32_quantum_def)

lemma rnd32_minus: "rnd32 (- x) = - rnd32 x"
  by (simp add: rnd32_def round_even_minus)

lemma rnd32_nonneg: "0 \<le> x \<Longrightarrow> 0 \<le> rnd32 x"
proof -
  assume x: "0 \<le> x"
  have "0 \<le> x / f32_quantum x" using x by (intro divide_nonneg_pos) simp_all
  then have "0 \<le> round_even (x / f32_quantum x)" using round_even_ge [of 0] by simp
  then show ?thesis by (simp add: rnd32_def)
qed

lemma rnd32_upper:
  assumes "0 < x"
  shows "rnd32 x \<le> p2 (f32_exponent x + 1)"
proof -
  let ?q = "f32_quantum x"
  have q: "p2 (f32_exponent x + 1) = ?q * of_int (2 ^ 24)"
  proof -
    have "f32_exponent x + 1 = (f32_exponent x - 23) + 24" by simp
    then have "p2 (f32_exponent x + 1) = p2 ((f32_exponent x - 23) + 24)" by (rule arg_cong)
    also have "\<dots> = ?q * p2 24" by (simp only: p2_add f32_quantum_p2)
    finally show ?thesis using p2_nat [of 24] by simp
  qed
  have "x < p2 (f32_exponent x + 1)" using f32_exponent_upper [of x] assms by simp
  then have "x / ?q \<le> of_int (2 ^ 24)" unfolding q by (simp add: field_simps)
  then have "round_even (x / ?q) \<le> 2 ^ 24" by (rule round_even_le)
  then have "?q * of_int (round_even (x / ?q)) \<le> ?q * of_int (2 ^ 24)"
    by (intro mult_left_mono) simp_all
  then show ?thesis using assms by (simp add: rnd32_def q)
qed

lemma rnd32_lower:
  assumes "0 < x" "p2 (f32_exponent x) \<le> x"
  shows "p2 (f32_exponent x) \<le> rnd32 x"
proof -
  let ?q = "f32_quantum x"
  have q: "p2 (f32_exponent x) = ?q * of_int (2 ^ 23)"
  proof -
    have "f32_exponent x = (f32_exponent x - 23) + 23" by simp
    then have "p2 (f32_exponent x) = p2 ((f32_exponent x - 23) + 23)" by (rule arg_cong)
    also have "\<dots> = ?q * p2 23" by (simp only: p2_add f32_quantum_p2)
    finally show ?thesis using p2_nat [of 23] by simp
  qed
  have "of_int (2 ^ 23) \<le> x / ?q" using assms(2) unfolding q by (simp add: field_simps)
  then have "2 ^ 23 \<le> round_even (x / ?q)" by (rule round_even_ge)
  then have "?q * of_int (2 ^ 23) \<le> ?q * of_int (round_even (x / ?q))"
    by (intro mult_left_mono) simp_all
  then show ?thesis using assms by (simp add: rnd32_def q)
qed

lemma rnd32_mono_pos:
  assumes "0 < x" "x \<le> y"
  shows "rnd32 x \<le> rnd32 y"
proof (cases "f32_exponent x = f32_exponent y")
  case True
  then have q: "f32_quantum x = f32_quantum y" by (simp add: f32_quantum_def)
  have "x / f32_quantum y \<le> y / f32_quantum y" using assms(2) by (intro divide_right_mono) simp_all
  then have "round_even (x / f32_quantum y) \<le> round_even (y / f32_quantum y)"
    by (rule round_even_mono)
  then have "f32_quantum y * of_int (round_even (x / f32_quantum y))
      \<le> f32_quantum y * of_int (round_even (y / f32_quantum y))"
    by (intro mult_left_mono) simp_all
  then show ?thesis using assms by (simp add: rnd32_def q)
next
  case False
  then have lt: "f32_exponent x < f32_exponent y"
    using f32_exponent_mono [OF assms] by simp
  have y: "0 < y" using assms by simp
  have "f32_exponent y \<noteq> - 126" using lt f32_exponent_ge [of x] by simp
  then have "p2 (f32_exponent y) \<le> y" using f32_exponent_lower [of y] y by simp
  then have "p2 (f32_exponent y) \<le> rnd32 y" by (rule rnd32_lower [OF y])
  moreover have "p2 (f32_exponent x + 1) \<le> p2 (f32_exponent y)"
    using lt by (intro p2_mono) simp
  ultimately show ?thesis using rnd32_upper [OF assms(1)] by linarith
qed

lemma rnd32_mono: "x \<le> y \<Longrightarrow> rnd32 x \<le> rnd32 y"
proof -
  assume xy: "x \<le> y"
  consider "0 < x" | "x \<le> 0" "0 \<le> y" | "y < 0" by linarith
  then show ?thesis
  proof cases
    case 1
    then show ?thesis using xy by (rule rnd32_mono_pos)
  next
    case 2
    have "0 \<le> rnd32 (- x)" using 2(1) by (intro rnd32_nonneg) simp
    then have "rnd32 x \<le> 0" by (simp add: rnd32_minus)
    then show ?thesis using rnd32_nonneg [OF 2(2)] by linarith
  next
    case 3
    have "rnd32 (- y) \<le> rnd32 (- x)" using 3 xy by (intro rnd32_mono_pos) simp_all
    then show ?thesis by (simp add: rnd32_minus)
  qed
qed

lemma round_even_abs_le:
  assumes "\<bar>y\<bar> \<le> of_int n"
  shows "\<bar>round_even y\<bar> \<le> n"
proof -
  have "round_even y \<le> n" using assms by (intro round_even_le) linarith
  moreover have "- n \<le> round_even y" using assms by (intro round_even_ge) simp
  ultimately show ?thesis by simp
qed

lemma rnd32_mantissa:
  assumes "x \<noteq> 0"
  shows "\<bar>round_even (x / f32_quantum x)\<bar> \<le> 2 ^ 24"
proof -
  let ?q = "f32_quantum x"
  have "f32_exponent x + 1 = (f32_exponent x - 23) + 24" by simp
  then have "p2 (f32_exponent x + 1) = p2 ((f32_exponent x - 23) + 24)" by (rule arg_cong)
  also have "\<dots> = ?q * p2 24" by (simp only: p2_add f32_quantum_p2)
  finally have q: "p2 (f32_exponent x + 1) = ?q * of_int (2 ^ 24)"
    using p2_nat [of 24] by simp
  have "\<bar>x\<bar> < ?q * of_int (2 ^ 24)" using f32_exponent_upper [OF assms] q by simp
  then have "\<bar>x\<bar> / ?q \<le> of_int (2 ^ 24)" by (simp add: field_simps)
  then have "\<bar>x / ?q\<bar> \<le> of_int (2 ^ 24)" by simp
  then show ?thesis by (rule round_even_abs_le)
qed

lemma rnd32_rep_pos:
  assumes M: "0 < M" "M < 2 ^ 24" and k: "- 149 \<le> k"
  shows "rnd32 (of_int M * p2 k) = of_int M * p2 k"
proof -
  let ?x = "of_int M * p2 k"
  define j where "j = \<lfloor>log 2 (of_int M)\<rfloor>"
  have Mr: "0 < (of_int M :: real)" using M(1) by simp
  have j: "p2 j \<le> of_int M" "of_int M < p2 (j + 1)"
    unfolding j_def by (rule floor_log2 [OF Mr])+
  have j23: "j \<le> 23"
  proof (rule ccontr)
    assume "\<not> j \<le> 23"
    then have "p2 24 \<le> p2 j" by (intro p2_mono) simp
    then have "(2 ^ 24 :: real) \<le> of_int M" using j(1) p2_nat [of 24] by simp
    then have "(2 ^ 24 :: int) \<le> M" using of_int_le_iff [of "2 ^ 24" M, where ?'a = real] by simp
    then show False using M(2) by simp
  qed
  have x: "0 < ?x" using Mr by simp
  have bounds: "p2 (j + k) \<le> ?x" "?x < p2 (j + k + 1)"
  proof -
    have "p2 (j + k) = p2 j * p2 k" by (rule p2_add)
    then show "p2 (j + k) \<le> ?x" using j(1) by (simp add: mult_right_mono)
    have "j + k + 1 = (j + 1) + k" by simp
    then have "p2 (j + k + 1) = p2 (j + 1) * p2 k" by (simp only: p2_add)
    then show "?x < p2 (j + k + 1)" using j(2) by (simp add: mult_strict_right_mono)
  qed
  define E where "E = f32_exponent ?x"
  have E: "E = max (j + k) (- 126)"
  proof (cases "- 126 \<le> j + k")
    case True
    have "f32_exponent ?x = j + k"
      by (rule f32_exponent_eqI) (use bounds x True in simp_all)
    then show ?thesis using True by (simp add: E_def)
  next
    case False
    then have "j + k + 1 \<le> - 126" by simp
    then have "p2 (j + k + 1) \<le> p2 (- 126)" by (rule p2_mono)
    then have "\<bar>?x\<bar> < p2 (- 126)" using bounds(2) x by simp
    moreover have "?x \<noteq> 0" using x by linarith
    ultimately have "f32_exponent ?x = - 126" by (intro f32_exponent_subnormal)
    then show ?thesis using False by (simp add: E_def)
  qed
  define t where "t = k - (E - 23)"
  have t: "0 \<le> t" using E j23 k by (simp add: t_def)
  have q: "f32_quantum ?x = p2 (E - 23)" by (simp add: f32_quantum_p2 E_def)
  have "k = t + (E - 23)" by (simp add: t_def)
  then have "p2 k = p2 t * p2 (E - 23)" by (simp only: p2_add)
  then have pk: "p2 k = of_int (2 ^ nat t) * p2 (E - 23)" using p2_of_nonneg [OF t] by simp
  have "?x / p2 (E - 23) = of_int (M * 2 ^ nat t)"
    by (simp add: pk)
  then have "round_even (?x / f32_quantum ?x) = M * 2 ^ nat t"
    by (simp only: q round_even_of_int)
  then have "rnd32 ?x = p2 (E - 23) * of_int (M * 2 ^ nat t)"
    using x by (simp add: rnd32_def q)
  also have "\<dots> = ?x" by (simp add: pk)
  finally show ?thesis .
qed

lemma rnd32_rep:
  assumes M: "\<bar>M\<bar> \<le> 2 ^ 24" and k: "- 149 \<le> k"
  shows "rnd32 (of_int M * p2 k) = of_int M * p2 k"
proof -
  have pos: "rnd32 (of_int N * p2 k) = of_int N * p2 k" if N: "0 < N" "N \<le> 2 ^ 24" for N
  proof (cases "N = 2 ^ 24")
    case False
    then show ?thesis using N k by (intro rnd32_rep_pos) simp_all
  next
    case True
    have "p2 (k + 1) = p2 k * 2" using p2_add [of k 1] p2_nat [of 1] by simp
    then have "of_int N * p2 k = of_int (2 ^ 23) * p2 (k + 1)" by (simp add: True)
    moreover have "rnd32 (of_int (2 ^ 23) * p2 (k + 1)) = of_int (2 ^ 23) * p2 (k + 1)"
      using k by (intro rnd32_rep_pos) simp_all
    ultimately show ?thesis by simp
  qed
  consider "M = 0" | "0 < M" | "M < 0" by linarith
  then show ?thesis
  proof cases
    case 1
    then show ?thesis by simp
  next
    case 2
    then show ?thesis using M by (intro pos) simp_all
  next
    case 3
    have "rnd32 (of_int (- M) * p2 k) = of_int (- M) * p2 k"
      using 3 M by (intro pos) simp_all
    then have "rnd32 (- (of_int M * p2 k)) = - (of_int M * p2 k)" by simp
    then show ?thesis by (simp only: rnd32_minus neg_equal_iff_equal)
  qed
qed

lemma rnd32_idem [simp]: "rnd32 (rnd32 x) = rnd32 x"
proof (cases "x = 0")
  case True
  then show ?thesis by simp
next
  case False
  have k: "- 149 \<le> f32_exponent x - 23" using f32_exponent_ge [of x] by simp
  have "rnd32 x = of_int (round_even (x / f32_quantum x)) * p2 (f32_exponent x - 23)"
    using False by (simp add: rnd32_def f32_quantum_p2)
  then show ?thesis
    using rnd32_rep [OF rnd32_mantissa [OF False] k] by simp
qed

lemma rnd32_of_int: "\<bar>m\<bar> \<le> 2 ^ 24 \<Longrightarrow> rnd32 (of_int m) = of_int m"
  using rnd32_rep [of m 0] by simp

lemma rnd32_dyadic:
  assumes "\<bar>m\<bar> \<le> 2 ^ 24" "n \<le> 149"
  shows "rnd32 (of_int m / 2 ^ n) = of_int m / 2 ^ n"
proof -
  have "p2 (- int n) = 1 / 2 ^ n"
    using p2_diff [of 0 "int n"] p2_nat [of n] by simp
  then show ?thesis using rnd32_rep [of m "- int n"] assms by simp
qed

lemma rnd32_error: "\<bar>rnd32 x - x\<bar> \<le> f32_quantum x / 2"
proof (cases "x = 0")
  case True
  then show ?thesis by simp
next
  case False
  let ?q = "f32_quantum x"
  have "rnd32 x - x = ?q * (of_int (round_even (x / ?q)) - x / ?q)"
    using False by (simp add: rnd32_def field_simps)
  then have "\<bar>rnd32 x - x\<bar> = ?q * \<bar>of_int (round_even (x / ?q)) - x / ?q\<bar>"
    by (simp add: abs_mult)
  also have "\<dots> \<le> ?q * (1 / 2)"
    by (intro mult_left_mono round_even_error) simp
  finally show ?thesis by simp
qed

lemma rnd32_1 [simp]: "rnd32 1 = 1"
  using rnd32_of_int [of 1] by simp

lemma rnd32_eval:
  assumes "p2 E \<le> \<bar>x\<bar>" "\<bar>x\<bar> < p2 (E + 1)" "- 126 \<le> E"
  shows "rnd32 x = p2 (E - 23) * of_int (round_even (x / p2 (E - 23)))"
proof -
  have "f32_exponent x = E" using assms by (rule f32_exponent_eqI)
  moreover have "0 < \<bar>x\<bar>" using assms(1) p2_pos [of E] by linarith
  then have "x \<noteq> 0" by simp
  ultimately show ?thesis by (simp add: rnd32_def f32_quantum_p2)
qed

lemma rnd32_below_one: "rnd32 (1 - 1 / 2 ^ 30) = 1"
proof -
  have p: "p2 (- 1) = 1 / 2" "p2 (- 24) = 1 / 2 ^ 24"
    using p2_diff [of 0 1] p2_nat [of 1] p2_diff [of 0 24] p2_nat [of 24] by simp_all
  have "rnd32 (1 - 1 / 2 ^ 30)
      = p2 (- 1 - 23) * of_int (round_even ((1 - 1 / 2 ^ 30) / p2 (- 1 - 23)))"
    by (rule rnd32_eval) (simp_all add: p)
  also have "(1 - 1 / 2 ^ 30) / p2 (- 1 - 23) = of_int (2 ^ 24 - 1) + (63 / 64 :: real)"
    by (simp add: p)
  also have "round_even (of_int (2 ^ 24 - 1) + (63 / 64 :: real)) = 2 ^ 24"
    by (simp add: round_even_def Let_def)
  finally show ?thesis by (simp add: p)
qed

lemma rnd32_sticks: "rnd32 (2 ^ 24 + 1) = 2 ^ 24"
proof -
  have p: "p2 24 = 2 ^ 24" "p2 25 = 2 ^ 25" "p2 1 = 2"
    using p2_nat [of 24] p2_nat [of 25] p2_nat [of 1] by simp_all
  have "rnd32 (2 ^ 24 + 1) = p2 (24 - 23) * of_int (round_even ((2 ^ 24 + 1) / p2 (24 - 23)))"
    by (rule rnd32_eval) (simp_all add: p)
  also have "(2 ^ 24 + 1) / p2 (24 - 23) = of_int (2 ^ 23) + (1 / 2 :: real)"
    by (simp add: p)
  also have "round_even (of_int (2 ^ 23) + (1 / 2 :: real)) = 2 ^ 23"
    by (simp add: round_even_def Let_def)
  finally show ?thesis by (simp add: p)
qed

lemma rnd32_abs: "\<bar>rnd32 x\<bar> = rnd32 \<bar>x\<bar>"
proof (cases "0 \<le> x")
  case True
  then show ?thesis using rnd32_nonneg [of x] by simp
next
  case False
  then have "0 \<le> rnd32 (- x)" by (intro rnd32_nonneg) simp
  then show ?thesis using False by (simp add: rnd32_minus)
qed

lemma f32_max_rep: "rnd32 f32_max = f32_max"
proof -
  have "f32_max = of_int (2 ^ 24 - 1) * p2 104"
    using p2_nat [of 104] by (simp add: f32_max_def)
  moreover have "rnd32 (of_int (2 ^ 24 - 1) * p2 104) = of_int (2 ^ 24 - 1) * p2 104"
    by (rule rnd32_rep) simp_all
  ultimately show ?thesis by simp
qed

lemma rnd32_in_range: "\<bar>x\<bar> \<le> f32_max \<Longrightarrow> \<bar>rnd32 x\<bar> \<le> f32_max"
  using rnd32_mono [of "\<bar>x\<bar>" f32_max] by (simp add: rnd32_abs f32_max_rep)

lemma f32_finite: "\<bar>x\<bar> \<le> f32_max \<Longrightarrow> f32 x = Inr (rnd32 x)"
  by (simp add: f32_def rnd32_in_range)

lemma f32_eq_Inr: "f32 x = Inr y \<longleftrightarrow> y = rnd32 x \<and> \<bar>rnd32 x\<bar> \<le> f32_max"
  by (auto simp: f32_def)

lemma f32_max_ge: "2 ^ 24 \<le> f32_max"
  by (simp add: f32_max_def)

lemma f32_small: "\<bar>x\<bar> \<le> 2 ^ 24 \<Longrightarrow> f32 x = Inr (rnd32 x)"
  using f32_max_ge by (intro f32_finite) linarith

lemma f32_0 [simp]: "f32 0 = Inr 0"
  using f32_small [of 0] by simp

lemma f32_1 [simp]: "f32 1 = Inr 1"
  using f32_small [of 1] by simp

lemma real_of_int_abs_le: "\<bar>m\<bar> \<le> 2 ^ 24 \<Longrightarrow> \<bar>real_of_int m\<bar> \<le> 2 ^ 24"
proof -
  assume "\<bar>m\<bar> \<le> 2 ^ 24"
  then have "real_of_int \<bar>m\<bar> \<le> real_of_int (2 ^ 24)" by (rule of_int_le_iff [THEN iffD2])
  then show ?thesis by simp
qed

lemma f32_of_int: "\<bar>m\<bar> \<le> 2 ^ 24 \<Longrightarrow> f32 (of_int m) = Inr (of_int m)"
  using f32_small [OF real_of_int_abs_le, of m] rnd32_of_int [of m] by simp

lemma f32_dyadic:
  assumes "\<bar>m\<bar> \<le> 2 ^ 24" "n \<le> 149"
  shows "f32 (of_int m / 2 ^ n) = Inr (of_int m / 2 ^ n)"
proof -
  have "\<bar>real_of_int m\<bar> \<le> 2 ^ 24"
    using assms(1) by (rule real_of_int_abs_le)
  moreover have "\<bar>real_of_int m / 2 ^ n\<bar> \<le> \<bar>real_of_int m\<bar>"
    by (simp add: field_simps mult_le_cancel_left1 abs_mult)
  ultimately have "\<bar>real_of_int m / 2 ^ n\<bar> \<le> 2 ^ 24" by linarith
  then show ?thesis using f32_small rnd32_dyadic [OF assms] by simp
qed

lemma rnd32_unit: "0 \<le> x \<Longrightarrow> x \<le> 1 \<Longrightarrow> 0 \<le> rnd32 x \<and> rnd32 x \<le> 1"
  using rnd32_mono [of x 1] rnd32_nonneg [of x] by simp

lemma f32_unit: "0 \<le> x \<Longrightarrow> x \<le> 1 \<Longrightarrow> f32 x = Inr (rnd32 x)"
  by (intro f32_small) simp

lemma f32_quantum_below_one:
  assumes "\<bar>x\<bar> < 1" "x \<noteq> 0"
  shows "f32_quantum x \<le> 1 / 2 ^ 24"
proof -
  have "log 2 \<bar>x\<bar> < 0" using assms by simp
  then have "\<lfloor>log 2 \<bar>x\<bar>\<rfloor> \<le> - 1" by (simp add: floor_le_iff)
  then have "f32_exponent x \<le> - 1" by (simp add: f32_exponent_def)
  then have "p2 (f32_exponent x - 23) \<le> p2 (- 24)" by (intro p2_mono) simp
  moreover have "p2 (- 24) = 1 / 2 ^ 24"
    using p2_diff [of 0 24] p2_nat [of 24] by simp
  ultimately show ?thesis by (simp add: f32_quantum_p2)
qed

lemma rnd32_error_unit:
  assumes "0 \<le> x" "x \<le> 1"
  shows "\<bar>rnd32 x - x\<bar> \<le> 1 / 2 ^ 25"
proof (cases "x = 1 \<or> x = 0")
  case True
  then show ?thesis by auto
next
  case False
  then have "\<bar>x\<bar> < 1" "x \<noteq> 0" using assms by simp_all
  from f32_quantum_below_one [OF this] rnd32_error [of x] show ?thesis by simp
qed

lemma rnd32_error_abs_unit:
  assumes "\<bar>x\<bar> \<le> 1"
  shows "\<bar>rnd32 x - x\<bar> \<le> 1 / 2 ^ 25"
proof (cases "0 \<le> x")
  case True
  then show ?thesis using assms by (intro rnd32_error_unit) simp_all
next
  case False
  then have "\<bar>rnd32 (- x) - (- x)\<bar> \<le> 1 / 2 ^ 25"
    using assms by (intro rnd32_error_unit) simp_all
  then show ?thesis unfolding rnd32_minus by linarith
qed

lemma rnd32_half [simp]: "rnd32 (1 / 2) = 1 / 2"
  using rnd32_dyadic [of 1 1] by simp

lemma rnd32_quarter [simp]: "rnd32 (1 / 4) = 1 / 4"
  using rnd32_dyadic [of 1 2] by simp

lemma rnd32_2 [simp]: "rnd32 2 = 2"
  using rnd32_of_int [of 2] by simp

lemma f32_minus_1 [simp]: "f32 (- 1) = Inr (- 1)"
  using f32_of_int [of "- 1"] by simp

lemma f32_2 [simp]: "f32 2 = Inr 2"
  using f32_of_int [of 2] by simp

lemma f32_half [simp]: "f32 (1 / 2) = Inr (1 / 2)"
  using f32_dyadic [of 1 1] by simp

lemma f32_max_ge_2: "2 \<le> f32_max"
  using f32_max_ge by simp

section \<open>Properties of the binary search\<close>

lemma bsearch_loop_range:
  "low \<le> high \<Longrightarrow> \<exists>i. bsearch_loop x a low high = Some i \<and> low \<le> i \<and> i \<le> high"
proof (induction "high - low" arbitrary: low high rule: less_induct)
  case less
  show ?case
  proof (cases "low = high")
    case True
    then show ?thesis by (subst bsearch_loop.simps) simp
  next
    case False
    let ?mid = "(low + high) div 2"
    have mid: "low \<le> ?mid" "?mid < high" using False less.prems by auto
    show ?thesis
    proof (cases "a ! ?mid < x")
      case True
      have "\<exists>i. bsearch_loop x a (?mid + 1) high = Some i \<and> ?mid + 1 \<le> i \<and> i \<le> high"
        by (rule less.hyps) (use mid in auto)
      then obtain i where i: "bsearch_loop x a (?mid + 1) high = Some i" "?mid + 1 \<le> i" "i \<le> high"
        by auto
      have "bsearch_loop x a low high = Some i"
        using i(1) by (subst bsearch_loop.simps) (simp add: False True Let_def)
      then show ?thesis using i mid by auto
    next
      case ge: False
      have "\<exists>i. bsearch_loop x a low ?mid = Some i \<and> low \<le> i \<and> i \<le> ?mid"
        by (rule less.hyps) (use mid in auto)
      then obtain i where i: "bsearch_loop x a low ?mid = Some i" "low \<le> i" "i \<le> ?mid"
        by auto
      have "bsearch_loop x a low high = Some i"
        using i(1) by (subst bsearch_loop.simps) (simp add: False ge Let_def)
      then show ?thesis using i mid by auto
    qed
  qed
qed

lemma bsearch_loop_all_less:
  "low \<le> high \<Longrightarrow> \<forall>j. low \<le> j \<and> j < high \<longrightarrow> a ! j < x \<Longrightarrow>
   bsearch_loop x a low high = Some high"
proof (induction "high - low" arbitrary: low high rule: less_induct)
  case less
  show ?case
  proof (cases "low = high")
    case True
    then show ?thesis by (subst bsearch_loop.simps) simp
  next
    case False
    let ?mid = "(low + high) div 2"
    have mid: "low \<le> ?mid" "?mid < high" using False less.prems by auto
    have lt: "a ! ?mid < x" using less.prems(2) mid by blast
    have "bsearch_loop x a (?mid + 1) high = Some high"
      by (rule less.hyps) (use mid less.prems(2) in auto)
    then show ?thesis using lt
      by (subst bsearch_loop.simps) (simp add: False lt Let_def)
  qed
qed

lemma bsearch_loop_sorted:
  assumes "low \<le> high" "high \<le> length a" "sorted a"
  shows "\<exists>i. bsearch_loop x a low high = Some i \<and> low \<le> i \<and> i \<le> high
           \<and> (\<forall>j. low \<le> j \<and> j < i \<longrightarrow> a ! j < x)
           \<and> (\<forall>j. i \<le> j \<and> j < high \<longrightarrow> x \<le> a ! j)"
  using assms(1,2)
proof (induction "high - low" arbitrary: low high rule: less_induct)
  case less
  show ?case
  proof (cases "low = high")
    case True
    then show ?thesis by (subst bsearch_loop.simps) simp
  next
    case False
    let ?mid = "(low + high) div 2"
    have mid: "low \<le> ?mid" "?mid < high" using False less.prems by auto
    show ?thesis
    proof (cases "a ! ?mid < x")
      case True
      have "\<exists>i. bsearch_loop x a (?mid + 1) high = Some i \<and> ?mid + 1 \<le> i \<and> i \<le> high
           \<and> (\<forall>j. ?mid + 1 \<le> j \<and> j < i \<longrightarrow> a ! j < x)
           \<and> (\<forall>j. i \<le> j \<and> j < high \<longrightarrow> x \<le> a ! j)"
        by (rule less.hyps) (use mid less.prems in auto)
      then obtain i where i: "bsearch_loop x a (?mid + 1) high = Some i" "?mid + 1 \<le> i" "i \<le> high"
        "\<forall>j. ?mid + 1 \<le> j \<and> j < i \<longrightarrow> a ! j < x" "\<forall>j. i \<le> j \<and> j < high \<longrightarrow> x \<le> a ! j"
        by auto
      have run: "bsearch_loop x a low high = Some i"
        using i(1) by (subst bsearch_loop.simps) (simp add: False True Let_def)
      have below: "a ! j < x" if "low \<le> j" "j < i" for j
      proof (cases "j \<le> ?mid")
        case True
        have "a ! j \<le> a ! ?mid"
          by (rule sorted_nth_mono [OF assms(3) True]) (use mid less.prems in auto)
        then show ?thesis using \<open>a ! ?mid < x\<close> by simp
      next
        case False
        then show ?thesis using i(4) that by auto
      qed
      show ?thesis using run i mid below by auto
    next
      case ge: False
      have "\<exists>i. bsearch_loop x a low ?mid = Some i \<and> low \<le> i \<and> i \<le> ?mid
           \<and> (\<forall>j. low \<le> j \<and> j < i \<longrightarrow> a ! j < x)
           \<and> (\<forall>j. i \<le> j \<and> j < ?mid \<longrightarrow> x \<le> a ! j)"
        by (rule less.hyps) (use mid less.prems in auto)
      then obtain i where i: "bsearch_loop x a low ?mid = Some i" "low \<le> i" "i \<le> ?mid"
        "\<forall>j. low \<le> j \<and> j < i \<longrightarrow> a ! j < x" "\<forall>j. i \<le> j \<and> j < ?mid \<longrightarrow> x \<le> a ! j"
        by auto
      have run: "bsearch_loop x a low high = Some i"
        using i(1) by (subst bsearch_loop.simps) (simp add: False ge Let_def)
      have above: "x \<le> a ! j" if "i \<le> j" "j < high" for j
      proof (cases "j < ?mid")
        case True
        then show ?thesis using i(5) that by auto
      next
        case False
        have "a ! ?mid \<le> a ! j"
          by (rule sorted_nth_mono [OF assms(3)]) (use False that less.prems in auto)
        then show ?thesis using ge by simp
      qed
      show ?thesis using run i mid above by auto
    qed
  qed
qed

lemma bsearch_smaller_range: "\<exists>i. bsearch_smaller x a = Inr i \<and> i \<le> length a"
  using bsearch_loop_range [of 0 "length a" x a] by (auto simp: bsearch_smaller_def)

lemma bsearch_smaller_all_less:
  "\<forall>c \<in> set a. c < x \<Longrightarrow> bsearch_smaller x a = Inr (length a)"
  using bsearch_loop_all_less [of 0 "length a" a x] by (simp add: bsearch_smaller_def)

lemma bsearch_smaller_sorted:
  assumes "sorted a"
  shows "\<exists>i. bsearch_smaller x a = Inr i \<and> i \<le> length a
           \<and> (\<forall>j < i. a ! j < x) \<and> (\<forall>j. i \<le> j \<and> j < length a \<longrightarrow> x \<le> a ! j)"
  using bsearch_loop_sorted [of 0 "length a" a x] assms by (auto simp: bsearch_smaller_def)

section \<open>The combined entry points, interpolation and normals\<close>

lemma no_assert_Inr [simp]: "no_assert (Inr v)"
  by (simp add: no_assert_def)

lemma no_assert_ebind: "no_assert r \<Longrightarrow> (\<And>v. no_assert (f v)) \<Longrightarrow> no_assert (ebind r f)"
  by (cases r) (simp_all add: no_assert_def)

lemma no_assert_efoldl: "(\<And>s x. no_assert (f s x)) \<Longrightarrow> no_assert (efoldl f s xs)"
  by (induction xs arbitrary: s) (simp_all add: no_assert_ebind)

lemma no_assert_get_at [simp]: "no_assert (get_at xs i)"
  by (simp add: get_at_def no_assert_def)

lemma no_assert_set_at [simp]: "no_assert (set_at xs i v)"
  by (simp add: set_at_def no_assert_def)

lemma no_assert_back_elem [simp]: "no_assert (back_elem xs)"
  by (simp add: back_elem_def no_assert_def)

lemma no_assert_f32 [simp]: "no_assert (f32 x)"
  by (simp add: f32_def no_assert_def)

lemma no_assert_fadd [simp]: "no_assert (fadd a b)"
  by (simp add: fadd_def)

lemma no_assert_fsub [simp]: "no_assert (fsub a b)"
  by (simp add: fsub_def)

lemma no_assert_fmul [simp]: "no_assert (fmul a b)"
  by (simp add: fmul_def)

lemma no_assert_fdiv [simp]: "no_assert (fdiv a b)"
  by (simp add: fdiv_def f32_def no_assert_def)

lemma no_assert_fsqrt [simp]: "no_assert (fsqrt a)"
  by (simp add: fsqrt_def f32_def no_assert_def)

lemma no_assert_sub3 [simp]: "no_assert (sub3 a b)"
  by (cases a, cases b) (auto intro!: no_assert_ebind)

lemma no_assert_cross [simp]: "no_assert (cross a b)"
  by (cases a, cases b) (auto intro!: no_assert_ebind simp: fmulsub_def)

lemma no_assert_length3 [simp]: "no_assert (length3 a)"
  by (cases a) (auto intro!: no_assert_ebind)

lemma no_assert_triangle_remap [simp]: "no_assert (triangle_remap uv)"
  unfolding triangle_remap_def by (intro no_assert_ebind) simp_all

lemma no_assert_bsearch_smaller [simp]: "no_assert (bsearch_smaller x a)"
  using bsearch_smaller_range [of x a] by auto

lemma no_assert_cdf_accumulate [simp]: "no_assert (cdf_accumulate n cdf)"
  unfolding cdf_accumulate_def by (intro no_assert_efoldl no_assert_ebind) simp_all

lemma no_assert_cdf_normalize [simp]: "no_assert (cdf_normalize n cdf)"
  unfolding cdf_normalize_def by (intro no_assert_efoldl no_assert_ebind) simp_all

lemma no_assert_cdf_points: "no_assert (sample_shape_cdf_points elems pos cdf)"
  unfolding sample_shape_cdf_points_def by (intro no_assert_efoldl no_assert_ebind) simp_all

lemma no_assert_cdf_lines: "no_assert (sample_shape_cdf_lines elems pos cdf)"
  unfolding sample_shape_cdf_lines_def by (intro no_assert_efoldl no_assert_ebind) simp_all

lemma no_assert_cdf_triangles: "no_assert (sample_shape_cdf_triangles elems pos cdf)"
  unfolding sample_shape_cdf_triangles_def by (intro no_assert_efoldl no_assert_ebind) simp_all

lemma no_assert_sample_points: "no_assert (sample_shape_points cdf ern)"
  unfolding sample_shape_points_def by (intro no_assert_ebind) simp_all

lemma no_assert_sample_lines: "no_assert (sample_shape_lines cdf ern uvrn)"
  unfolding sample_shape_lines_def by (intro no_assert_ebind) simp_all

lemma no_assert_sample_triangles: "no_assert (sample_shape_triangles cdf ern uvrn)"
  unfolding sample_shape_triangles_def by (intro no_assert_ebind) simp_all

lemma no_assert_interpolate_lines: "no_assert (interpolate_vert_lines lines vert eid euv)"
  unfolding interpolate_vert_lines_def by (intro no_assert_ebind) simp_all

lemma no_assert_interpolate_triangles: "no_assert (interpolate_vert_triangles ts vert eid euv)"
  unfolding interpolate_vert_triangles_def by (intro no_assert_ebind) simp_all

text \<open>
  Claim C2, as amended. The combined \<^const>\<open>sample_shape_cdf\<close>, \<^const>\<open>sample_shape\<close> and
  \<^const>\<open>interpolate_vert\<close> fail an assertion when none of their three arrays is non-empty.
  When one or more are non-empty they report no violation: they use the first non-empty
  array in the order points, lines, triangles, whatever the later arrays hold, and never
  fail an assertion.
\<close>

theorem combined_entry_points_dispatch:
  fixes points :: "int list" and vert :: "'a::real_vector list"
  shows
  "(points = [] \<and> lines = [] \<and> triangles = [] \<longrightarrow>
       sample_shape_cdf points lines triangles pos cdf = Inl AssertionFailed
     \<and> interpolate_vert points lines triangles vert eid euv = Inl AssertionFailed)
   \<and> (point_cdf = [] \<and> line_cdf = [] \<and> triangle_cdf = [] \<longrightarrow>
       sample_shape point_cdf line_cdf triangle_cdf ern uvrn = Inl AssertionFailed)
   \<and> (points \<noteq> [] \<longrightarrow>
       sample_shape_cdf points lines triangles pos cdf = sample_shape_cdf_points points pos cdf
     \<and> interpolate_vert points lines triangles vert eid euv
         = ebind (get_at points eid) (\<lambda>p. get_at vert p))
   \<and> (point_cdf \<noteq> [] \<longrightarrow>
       sample_shape point_cdf line_cdf triangle_cdf ern uvrn
         = ebind (sample_shape_points point_cdf ern) (\<lambda>eid. Inr (eid, uvrn)))
   \<and> (points = [] \<and> lines \<noteq> [] \<longrightarrow>
       sample_shape_cdf points lines triangles pos cdf = sample_shape_cdf_lines lines pos cdf
     \<and> interpolate_vert points lines triangles vert eid euv
         = interpolate_vert_lines lines vert eid euv)
   \<and> (point_cdf = [] \<and> line_cdf \<noteq> [] \<longrightarrow>
       sample_shape point_cdf line_cdf triangle_cdf ern uvrn
         = ebind (sample_shape_lines line_cdf ern (fst uvrn)) (\<lambda>r. Inr (fst r, (snd r, snd uvrn))))
   \<and> (points = [] \<and> lines = [] \<and> triangles \<noteq> [] \<longrightarrow>
       sample_shape_cdf points lines triangles pos cdf
         = sample_shape_cdf_triangles triangles pos cdf
     \<and> interpolate_vert points lines triangles vert eid euv
         = interpolate_vert_triangles triangles vert eid euv)
   \<and> (point_cdf = [] \<and> line_cdf = [] \<and> triangle_cdf \<noteq> [] \<longrightarrow>
       sample_shape point_cdf line_cdf triangle_cdf ern uvrn
         = sample_shape_triangles triangle_cdf ern uvrn)
   \<and> (\<not> (points = [] \<and> lines = [] \<and> triangles = []) \<longrightarrow>
       sample_shape_cdf points lines triangles pos cdf \<noteq> Inl AssertionFailed
     \<and> interpolate_vert points lines triangles vert eid euv \<noteq> Inl AssertionFailed)
   \<and> (\<not> (point_cdf = [] \<and> line_cdf = [] \<and> triangle_cdf = []) \<longrightarrow>
       sample_shape point_cdf line_cdf triangle_cdf ern uvrn \<noteq> Inl AssertionFailed)"
proof -
  have cdf_ok: "sample_shape_cdf points lines triangles pos cdf \<noteq> Inl AssertionFailed"
    if "\<not> (points = [] \<and> lines = [] \<and> triangles = [])"
    using that no_assert_cdf_points [of points pos cdf] no_assert_cdf_lines [of lines pos cdf]
      no_assert_cdf_triangles [of triangles pos cdf]
    by (auto simp: sample_shape_cdf_def no_assert_def)
  have ip: "no_assert (ebind (get_at points eid) (\<lambda>p. get_at vert p))"
    by (intro no_assert_ebind) simp_all
  have ip_ok: "interpolate_vert points lines triangles vert eid euv \<noteq> Inl AssertionFailed"
    if "\<not> (points = [] \<and> lines = [] \<and> triangles = [])"
    using that ip no_assert_interpolate_lines [of lines vert eid euv]
      no_assert_interpolate_triangles [of triangles vert eid euv]
    by (auto simp: interpolate_vert_def interpolate_vert_lines_def
        interpolate_vert_triangles_def no_assert_def)
  have sp: "no_assert (ebind (sample_shape_points point_cdf ern) (\<lambda>eid. Inr (eid, uvrn)))"
    by (intro no_assert_ebind no_assert_sample_points) simp
  have sl: "no_assert (ebind (sample_shape_lines line_cdf ern (fst uvrn))
      (\<lambda>r. Inr (fst r, (snd r, snd uvrn))))"
    by (intro no_assert_ebind no_assert_sample_lines) simp
  have s_ok: "sample_shape point_cdf line_cdf triangle_cdf ern uvrn \<noteq> Inl AssertionFailed"
    if "\<not> (point_cdf = [] \<and> line_cdf = [] \<and> triangle_cdf = [])"
    using that sp sl no_assert_sample_triangles [of triangle_cdf ern uvrn]
    by (auto simp: sample_shape_def no_assert_def)
  show ?thesis
    using cdf_ok ip_ok s_ok
    by (simp add: sample_shape_cdf_def sample_shape_def interpolate_vert_def
        interpolate_vert_lines_def interpolate_vert_triangles_def)
qed

theorem combined_entry_points_dispatch_witness:
  "sample_shape_cdf [] [] [] [] [] = Inl AssertionFailed
   \<and> sample_shape [] [] [] 0 (0, 0) = Inl AssertionFailed
   \<and> interpolate_vert [] [] [] ([] :: real list) 0 (0, 0) = Inl AssertionFailed
   \<and> sample_shape_cdf [0] [(0, 0)] [(0, 0, 0)] [(0, 0, 0)] [0]
       = sample_shape_cdf_points [0] [(0, 0, 0)] [0]
   \<and> sample_shape [1] [1] [1] 0 (0, 0) = ebind (sample_shape_points [1] 0) (\<lambda>eid. Inr (eid, (0, 0)))
   \<and> interpolate_vert [] [(0, 1)] [(0, 1, 1)] [5, 7 :: real] 0 (0, 0)
       = interpolate_vert_lines [(0, 1)] [5, 7] 0 (0, 0)
   \<and> sample_shape [] [1] [1] 0 (0, 0)
       = ebind (sample_shape_lines [1] 0 0) (\<lambda>r. Inr (fst r, (snd r, 0)))
   \<and> sample_shape_cdf [] [] [(0, 0, 0)] [(0, 0, 0)] [0]
       = sample_shape_cdf_triangles [(0, 0, 0)] [(0, 0, 0)] [0]
   \<and> sample_shape [] [] [1] 0 (0, 0) = sample_shape_triangles [1] 0 (0, 0)
   \<and> interpolate_vert [] [(0, 1)] [(0, 1, 1)] [5, 7 :: real] 0 (0, 0) \<noteq> Inl AssertionFailed"
  using combined_entry_points_dispatch [of "[]" "[]" "[]" "[]" "[]" "[] :: real list" 0 "(0, 0)" "[]" "[]" "[]" 0 "(0, 0)"]
    combined_entry_points_dispatch [of "[0]" "[(0, 0)]" "[(0, 0, 0)]" "[(0, 0, 0)]" "[0]" "[5, 7 :: real]" 0 "(0, 0)" "[1]" "[1]" "[1]" 0 "(0, 0)"]
    combined_entry_points_dispatch [of "[]" "[(0, 1)]" "[(0, 1, 1)]" "[(0, 0, 0)]" "[0]" "[5, 7 :: real]" 0 "(0, 0)" "[]" "[1]" "[1]" 0 "(0, 0)"]
    combined_entry_points_dispatch [of "[]" "[]" "[(0, 0, 0)]" "[(0, 0, 0)]" "[0]" "[5, 7 :: real]" 0 "(0, 0)" "[]" "[]" "[1]" 0 "(0, 0)"]
  by (simp (no_asm_use)) blast

theorem combined_entry_points_silent_counterexample:
  "sample_shape [1] [1] [] 0 (0, 0) = Inr (0, (0, 0))
   \<and> interpolate_vert [0] [(0, 1)] [] [5, 7 :: real] 0 (0, 0) = Inr 5
   \<and> sample_shape_cdf [0] [(0, 0)] [] [(0, 0, 0)] [0] = Inr ([1], 1)"
  by (simp add: sample_shape_def sample_shape_points_def bsearch_smaller_def bsearch_loop.simps
      interpolate_vert_def get_at_def sample_shape_cdf_def sample_shape_cdf_points_def
      set_at_def cdf_accumulate_def cdf_normalize_def back_elem_def fdiv_def fsub_def)

text \<open>
  Claim C1 fails on the code. On the line \<open>(0, 1)\<close> with the vertex data \<open>[1, 2]\<close> and the
  coordinate \<open>(1/4, 3/4)\<close>, both line interpolations return \<open>1 * 3/4 + 2 * 3/4 = 9/4\<close>:
  endpoint 0 is weighted by \<open>1 - euv[0]\<close> and endpoint 1 by \<open>euv[1]\<close>, two parameters whose
  weights need not sum to 1. At \<open>(0, 1)\<close> the result is \<open>3\<close>, at \<open>(1, 0)\<close> it is \<open>0\<close>; neither
  is the datum of an endpoint.
\<close>

theorem interpolate_vert_lines_two_parameters:
  "interpolate_vert_lines [(0, 1)] [1, 2 :: real] 0 (1 / 4, 3 / 4) = Inr (9 / 4)
   \<and> interpolate_vert [] [(0, 1)] [] [1, 2 :: real] 0 (1 / 4, 3 / 4) = Inr (9 / 4)
   \<and> interpolate_vert_lines [(0, 1)] [1, 2 :: real] 0 (0, 1) = Inr 3
   \<and> interpolate_vert_lines [(0, 1)] [1, 2 :: real] 0 (1, 0) = Inr 0"
proof -
  have "f32 (real_of_int 3 / 2 ^ 2) = Inr (real_of_int 3 / 2 ^ 2)"
    by (rule f32_dyadic) simp_all
  then have q: "f32 (3 / 4) = Inr (3 / 4)" by simp
  show ?thesis
    by (simp add: interpolate_vert_lines_def interpolate_vert_def get_at_def fsub_def q)
qed

text \<open>
  Claim C9 fails on the code. The overload of \<^verbatim>\<open>compute_normals\<close> that returns the normals
  returns the empty array, not one normal per vertex: for a shape without elements and any
  positions the result has length 0.
\<close>

theorem compute_normals_ret_empty:
  "compute_normals_ret normalize3 [] [] [] pos weighted = Inr []"
  by (simp add: compute_normals_ret_def compute_normals_def)

section \<open>Properties of the sampler\<close>

lemma triangle_remap_unit:
  assumes "0 \<le> u" "u \<le> 1" "0 \<le> v" "v \<le> 1"
  shows "triangle_remap (u, v)
       = Inr (rnd32 (1 - rnd32 (sqrt u)), rnd32 (v * rnd32 (sqrt u)))"
proof -
  let ?s = "rnd32 (sqrt u)"
  have r: "0 \<le> sqrt u" "sqrt u \<le> 1" using assms(1,2) by simp_all
  have s: "0 \<le> ?s" "?s \<le> 1" using rnd32_unit [OF r] by simp_all
  have q: "fsqrt u = Inr ?s"
    using assms(1) f32_unit [OF r] by (simp add: fsqrt_def)
  have d: "fsub 1 ?s = Inr (rnd32 (1 - ?s))"
    unfolding fsub_def by (rule f32_unit) (use s in simp_all)
  have "v * ?s \<le> 1 * 1" by (rule mult_mono) (use assms s in simp_all)
  then have m: "fmul v ?s = Inr (rnd32 (v * ?s))"
    unfolding fmul_def by (intro f32_unit) (use assms(3) s(1) in simp_all)
  show ?thesis by (simp add: triangle_remap_def q d m)
qed

lemma triangle_remap_range:
  assumes "0 \<le> u" "u \<le> 1" "0 \<le> v" "v \<le> 1"
  shows "0 \<le> rnd32 (1 - rnd32 (sqrt u))" "rnd32 (1 - rnd32 (sqrt u)) \<le> 1"
    "0 \<le> rnd32 (v * rnd32 (sqrt u))" "rnd32 (v * rnd32 (sqrt u)) \<le> rnd32 (sqrt u)"
    "rnd32 (sqrt u) \<le> 1"
    "\<bar>rnd32 (1 - rnd32 (sqrt u)) - (1 - rnd32 (sqrt u))\<bar> \<le> 1 / 2 ^ 25"
proof -
  let ?s = "rnd32 (sqrt u)"
  have r: "0 \<le> sqrt u" "sqrt u \<le> 1" using assms(1,2) by simp_all
  have s: "0 \<le> ?s" "?s \<le> 1" using rnd32_unit [OF r] by simp_all
  have x: "0 \<le> 1 - ?s" "1 - ?s \<le> 1" using s by simp_all
  show "0 \<le> rnd32 (1 - ?s)" "rnd32 (1 - ?s) \<le> 1" using rnd32_unit [OF x] by simp_all
  show "0 \<le> rnd32 (v * ?s)" using assms(3) s(1) by (intro rnd32_nonneg) simp
  have "v * ?s \<le> 1 * ?s" by (rule mult_right_mono) (use assms(4) s(1) in simp_all)
  then have "rnd32 (v * ?s) \<le> rnd32 ?s" by (intro rnd32_mono) simp
  then show "rnd32 (v * ?s) \<le> ?s" by simp
  show "?s \<le> 1" by (rule s(2))
  show "\<bar>rnd32 (1 - ?s) - (1 - ?s)\<bar> \<le> 1 / 2 ^ 25" by (rule rnd32_error_unit [OF x])
qed

lemma sample_shape_of_bsearch:
  assumes "bsearch_smaller ern cdf = Inr i"
  shows "sample_shape_points cdf ern = Inr (int i)"
    and "sample_shape_lines cdf ern uvrn = Inr (int i, uvrn)"
    and "sample_shape_triangles cdf ern uv = ebind (triangle_remap uv) (\<lambda>euv. Inr (int i, euv))"
    and "0 \<le> fst uv \<and> fst uv \<le> 1 \<and> 0 \<le> snd uv \<and> snd uv \<le> 1 \<longrightarrow>
           sample_shape_triangles cdf ern uv
             = Inr (int i, (rnd32 (1 - rnd32 (sqrt (fst uv))),
                            rnd32 (snd uv * rnd32 (sqrt (fst uv)))))"
proof -
  show "sample_shape_points cdf ern = Inr (int i)"
    and "sample_shape_lines cdf ern uvrn = Inr (int i, uvrn)"
    and t: "sample_shape_triangles cdf ern uv = ebind (triangle_remap uv) (\<lambda>euv. Inr (int i, euv))"
    using assms
    by (simp_all add: sample_shape_points_def sample_shape_lines_def sample_shape_triangles_def)
  show "0 \<le> fst uv \<and> fst uv \<le> 1 \<and> 0 \<le> snd uv \<and> snd uv \<le> 1 \<longrightarrow>
           sample_shape_triangles cdf ern uv
             = Inr (int i, (rnd32 (1 - rnd32 (sqrt (fst uv))),
                            rnd32 (snd uv * rnd32 (sqrt (fst uv)))))"
    using triangle_remap_unit [of "fst uv" "snd uv"] by (simp add: t)
qed

text \<open>
  Claim C5, as amended. For a non-empty, non-decreasing CDF with a non-negative first
  entry, and a draw \<open>ern\<close> that is not above the last entry, the sampler (each of the
  three single-kind \<^verbatim>\<open>sample_shape\<close>) returns the smallest index \<open>i\<close> with
  \<open>ern \<le> cdf ! i\<close>; with \<open>ern = 0\<close> it selects element 0.
\<close>

theorem sample_shape_smallest_index:
  assumes "cdf \<noteq> []" and "sorted cdf" and "0 \<le> cdf ! 0"
  shows "(ern \<le> last cdf \<longrightarrow>
            (\<exists>i < length cdf. sample_shape_points cdf ern = Inr (int i)
               \<and> sample_shape_lines cdf ern uvrn = Inr (int i, uvrn)
               \<and> sample_shape_triangles cdf ern uv
                     = ebind (triangle_remap uv) (\<lambda>euv. Inr (int i, euv))
               \<and> (0 \<le> fst uv \<and> fst uv \<le> 1 \<and> 0 \<le> snd uv \<and> snd uv \<le> 1 \<longrightarrow>
                     sample_shape_triangles cdf ern uv
                       = Inr (int i, (rnd32 (1 - rnd32 (sqrt (fst uv))),
                                      rnd32 (snd uv * rnd32 (sqrt (fst uv))))))
               \<and> ern \<le> cdf ! i \<and> (\<forall>j < i. cdf ! j < ern)))
       \<and> sample_shape_points cdf 0 = Inr 0"
proof -
  have len: "0 < length cdf" using assms(1) by simp
  have general: "\<exists>i < length cdf. bsearch_smaller x cdf = Inr i \<and> x \<le> cdf ! i \<and> (\<forall>j < i. cdf ! j < x)"
    if x: "x \<le> last cdf" for x
  proof -
    from bsearch_smaller_sorted [OF assms(2), of x] obtain i where
      i: "bsearch_smaller x cdf = Inr i" "i \<le> length cdf" "\<forall>j < i. cdf ! j < x"
        "\<forall>j. i \<le> j \<and> j < length cdf \<longrightarrow> x \<le> cdf ! j"
      by auto
    have "i \<noteq> length cdf"
    proof
      assume "i = length cdf"
      then have "cdf ! (length cdf - 1) < x" using i(3) len by simp
      then show False using x assms(1) by (simp add: last_conv_nth)
    qed
    then have "i < length cdf" using i(2) by simp
    then show ?thesis using i by auto
  qed
  have first: "ern \<le> last cdf \<longrightarrow>
            (\<exists>i < length cdf. sample_shape_points cdf ern = Inr (int i)
               \<and> sample_shape_lines cdf ern uvrn = Inr (int i, uvrn)
               \<and> sample_shape_triangles cdf ern uv
                     = ebind (triangle_remap uv) (\<lambda>euv. Inr (int i, euv))
               \<and> (0 \<le> fst uv \<and> fst uv \<le> 1 \<and> 0 \<le> snd uv \<and> snd uv \<le> 1 \<longrightarrow>
                     sample_shape_triangles cdf ern uv
                       = Inr (int i, (rnd32 (1 - rnd32 (sqrt (fst uv))),
                                      rnd32 (snd uv * rnd32 (sqrt (fst uv))))))
               \<and> ern \<le> cdf ! i \<and> (\<forall>j < i. cdf ! j < ern))"
  proof
    assume "ern \<le> last cdf"
    from general [OF this] obtain i where
      i: "i < length cdf" "bsearch_smaller ern cdf = Inr i" "ern \<le> cdf ! i"
        "\<forall>j < i. cdf ! j < ern"
      by auto
    show "\<exists>i < length cdf. sample_shape_points cdf ern = Inr (int i)
               \<and> sample_shape_lines cdf ern uvrn = Inr (int i, uvrn)
               \<and> sample_shape_triangles cdf ern uv
                     = ebind (triangle_remap uv) (\<lambda>euv. Inr (int i, euv))
               \<and> (0 \<le> fst uv \<and> fst uv \<le> 1 \<and> 0 \<le> snd uv \<and> snd uv \<le> 1 \<longrightarrow>
                     sample_shape_triangles cdf ern uv
                       = Inr (int i, (rnd32 (1 - rnd32 (sqrt (fst uv))),
                                      rnd32 (snd uv * rnd32 (sqrt (fst uv))))))
               \<and> ern \<le> cdf ! i \<and> (\<forall>j < i. cdf ! j < ern)"
      using i(1,3,4) sample_shape_of_bsearch [OF i(2)] by blast
  qed
  have "cdf ! 0 \<le> last cdf"
    using sorted_nth_mono [OF assms(2), of 0 "length cdf - 1"] len assms(1)
    by (simp add: last_conv_nth)
  then have "0 \<le> last cdf" using assms(3) by simp
  from general [OF this] obtain i where
    i: "i < length cdf" "bsearch_smaller 0 cdf = Inr i" "\<forall>j < i. cdf ! j < 0"
    by auto
  have "i = 0"
  proof (rule ccontr)
    assume "i \<noteq> 0"
    then have "cdf ! 0 < 0" using i(3) by simp
    then show False using assms(3) by simp
  qed
  then have zero: "sample_shape_points cdf 0 = Inr 0"
    using i(2) by (simp add: sample_shape_points_def)
  show ?thesis using first zero by (rule conjI)
qed

theorem sample_shape_smallest_index_witness:
  "(\<exists>i < length [1 / 4, 1 / 2, 1 :: real]. sample_shape_points [1 / 4, 1 / 2, 1] (3 / 10) = Inr (int i)
       \<and> sample_shape_lines [1 / 4, 1 / 2, 1] (3 / 10) (7 / 8) = Inr (int i, 7 / 8)
       \<and> sample_shape_triangles [1 / 4, 1 / 2, 1] (3 / 10) (1 / 4, 1 / 2)
           = Inr (int i, (1 / 2, 1 / 4))
       \<and> 3 / 10 \<le> [1 / 4, 1 / 2, 1 :: real] ! i \<and> (\<forall>j < i. [1 / 4, 1 / 2, 1 :: real] ! j < 3 / 10))
   \<and> sample_shape_points [1 / 4, 1 / 2, 1] 0 = Inr 0"
proof -
  have sq: "sqrt (1 / 4) = 1 / 2" by (simp add: real_sqrt_divide)
  show ?thesis
    using sample_shape_smallest_index [of "[1 / 4, 1 / 2, 1]" "3 / 10" "7 / 8" "(1 / 4, 1 / 2)"]
    by (simp add: sq) blast
qed

theorem sample_shape_past_the_end_counterexample:
  "sample_shape_points [1 / 4, 1 / 2] (3 / 4) = Inr 2
   \<and> length [1 / 4, 1 / 2 :: real] = 2
   \<and> sorted [1 / 4, 1 / 2 :: real]
   \<and> (0 :: real) \<le> [1 / 4, 1 / 2] ! 0
   \<and> \<not> (3 / 4 :: real) \<le> [1 / 4, 1 / 2] ! 0
   \<and> \<not> (3 / 4 :: real) \<le> [1 / 4, 1 / 2] ! 1"
  by (simp add: sample_shape_points_def bsearch_smaller_def bsearch_loop.simps)

text \<open>
  Claim C10. For every array \<open>cdf\<close>, the empty one too, and every draw \<open>ern\<close>, the
  single-kind \<^verbatim>\<open>sample_shape\<close> returns an index in \<open>[0, length cdf]\<close> and no error (for
  triangles: with the coordinates of \<^const>\<open>triangle_remap\<close>, which are finite floats for
  every pair in the unit square). The index is \<open>length cdf\<close> when every entry is below
  \<open>ern\<close>, and for a CDF (a non-decreasing array) only then. On the empty array it is 0.
\<close>

theorem sample_shape_index_range:
  "\<exists>i. sample_shape_points cdf ern = Inr (int i)
      \<and> sample_shape_lines cdf ern uvrn = Inr (int i, uvrn)
      \<and> sample_shape_triangles cdf ern uv
            = ebind (triangle_remap uv) (\<lambda>euv. Inr (int i, euv))
      \<and> (0 \<le> fst uv \<and> fst uv \<le> 1 \<and> 0 \<le> snd uv \<and> snd uv \<le> 1 \<longrightarrow>
            sample_shape_triangles cdf ern uv
              = Inr (int i, (rnd32 (1 - rnd32 (sqrt (fst uv))),
                             rnd32 (snd uv * rnd32 (sqrt (fst uv))))))
      \<and> i \<le> length cdf
      \<and> ((\<forall>c \<in> set cdf. c < ern) \<longrightarrow> i = length cdf)
      \<and> (sorted cdf \<and> i = length cdf \<longrightarrow> (\<forall>c \<in> set cdf. c < ern))
      \<and> (cdf = [] \<longrightarrow> i = 0)"
proof -
  from bsearch_smaller_range [of ern cdf] obtain i where
    i: "bsearch_smaller ern cdf = Inr i" "i \<le> length cdf" by auto
  have a: "(\<forall>c \<in> set cdf. c < ern) \<longrightarrow> i = length cdf"
    using bsearch_smaller_all_less [of cdf ern] i(1) by auto
  have b: "sorted cdf \<and> i = length cdf \<longrightarrow> (\<forall>c \<in> set cdf. c < ern)"
  proof
    assume s: "sorted cdf \<and> i = length cdf"
    from bsearch_smaller_sorted [of cdf ern] s i(1)
    have "\<forall>j < length cdf. cdf ! j < ern" by auto
    then show "\<forall>c \<in> set cdf. c < ern" by (auto simp: in_set_conv_nth)
  qed
  have c: "cdf = [] \<longrightarrow> i = 0" using i(2) by auto
  show ?thesis
    using i(2) a b c sample_shape_of_bsearch [OF i(1)] by blast
qed

theorem sample_shape_index_range_witness:
  "sample_shape_points [] (1 / 2) = Inr 0
   \<and> sample_shape_lines [] (1 / 2) (1 / 4) = Inr (0, 1 / 4)
   \<and> sample_shape_points [1 / 4, 1 / 2] (3 / 4) = Inr (int (length [1 / 4, 1 / 2 :: real]))"
  using sample_shape_index_range [of "[]" "1 / 2" "1 / 4" "(0, 0)"]
    sample_shape_index_range [of "[1 / 4, 1 / 2]" "3 / 4" 0 "(0, 0)"]
  by auto

lemma sqrt_inverse_power_60: "sqrt (1 / 2 ^ 60) = 1 / 2 ^ 30"
proof -
  have "(1 / 2 ^ 30 :: real)\<^sup>2 = 1 / 2 ^ 60" by (simp add: power_divide)
  then show ?thesis by (metis real_sqrt_abs abs_of_nonneg zero_le_divide_1_iff zero_le_numeral zero_le_power)
qed

text \<open>
  Claim C6, as amended. For \<open>(u, v)\<close> in \<open>[0, 1)\<^sup>2\<close> the remap of the triangle sampler,
  computed in single precision, returns finite floats \<open>u'\<close> and \<open>v'\<close> in \<open>[0, 1]\<close>. The first
  weight \<open>1 - u' - v'\<close> is at most 1 and not below \<open>- 2 ^ - 25\<close> (it can be negative), and
  with it the three weights sum to 1. The first weight as \<^const>\<open>interpolate_vert_triangles\<close>
  computes it, with two float subtractions, lies in \<open>[- 2 ^ - 24, 1]\<close> and sums with \<open>u'\<close>
  and \<open>v'\<close> to 1 within \<open>2 ^ - 24\<close>. The claim itself fails at \<open>u = 2 ^ - 60\<close>, \<open>v = 1 / 2\<close>:
  \<open>sqrtf u = 2 ^ - 30\<close>, \<open>1 - 2 ^ - 30\<close> rounds to \<open>u' = 1\<close>, \<open>v' = 2 ^ - 31\<close>, and the first
  weight is \<open>- 2 ^ - 31\<close>.
\<close>

theorem triangle_remap_weights:
  assumes "0 \<le> u" "u < 1" "0 \<le> v" "v < 1"
  shows "\<exists>u' v'. triangle_remap (u, v) = Inr (u', v')
      \<and> 0 \<le> u' \<and> u' \<le> 1 \<and> 0 \<le> v' \<and> v' \<le> 1
      \<and> (1 - u' - v') + u' + v' = 1
      \<and> - (1 / 2 ^ 25) \<le> 1 - u' - v' \<and> 1 - u' - v' \<le> 1
      \<and> (\<exists>w0. interpolate_vert_triangles [(0, 1, 2)] [1, 0, 0 :: real] 0 (u', v') = Inr w0
            \<and> - (1 / 2 ^ 24) \<le> w0 \<and> w0 \<le> 1 \<and> \<bar>w0 + u' + v' - 1\<bar> \<le> 1 / 2 ^ 24)"
proof -
  let ?s = "rnd32 (sqrt u)"
  let ?u = "rnd32 (1 - ?s)"
  let ?v = "rnd32 (v * ?s)"
  let ?a = "rnd32 (1 - ?u)"
  let ?w = "rnd32 (?a - ?v)"
  have uv: "0 \<le> u" "u \<le> 1" "0 \<le> v" "v \<le> 1" using assms by simp_all
  have run: "triangle_remap (u, v) = Inr (?u, ?v)" by (rule triangle_remap_unit [OF uv])
  note rg = triangle_remap_range [OF uv]
  have v1: "?v \<le> 1" using rg(4,5) by simp
  have lo: "- (1 / 2 ^ 25) \<le> 1 - ?u - ?v" using rg(4,6) by linarith
  have hi: "1 - ?u - ?v \<le> 1" using rg(1,3) by simp
  have x: "0 \<le> 1 - ?u" "1 - ?u \<le> 1" using rg(1,2) by simp_all
  have a: "0 \<le> ?a" "?a \<le> 1" using rnd32_unit [OF x] by simp_all
  have ea: "\<bar>?a - (1 - ?u)\<bar> \<le> 1 / 2 ^ 25" by (rule rnd32_error_unit [OF x])
  have f1: "fsub 1 ?u = Inr ?a" unfolding fsub_def by (rule f32_unit [OF x])
  have "\<bar>?a - ?v\<bar> \<le> 2 ^ 24" using a rg(3) v1 by (simp add: abs_le_iff)
  then have f2: "fsub ?a ?v = Inr ?w" unfolding fsub_def by (rule f32_small)
  have "?a - ?v \<le> 1" using a(2) rg(3) by simp
  from rnd32_mono [OF this] have w1: "?w \<le> 1" by simp
  have "- (1 / 2 ^ 25) - 1 / 2 ^ 25 \<le> ?a - ?v" using ea rg(4,6) by linarith
  then have "real_of_int (- 1) / 2 ^ 24 \<le> ?a - ?v" by simp
  from rnd32_mono [OF this] have w0: "- (1 / 2 ^ 24) \<le> ?w"
    using rnd32_dyadic [of "- 1" 24] by simp
  have ip: "interpolate_vert_triangles [(0, 1, 2)] [1, 0, 0 :: real] 0 (?u, ?v) = Inr ?w"
    by (simp add: interpolate_vert_triangles_def get_at_def f1 f2)
  have "\<bar>?a - ?v\<bar> \<le> 1" using a rg(3) v1 by linarith
  then have ew: "\<bar>?w - (?a - ?v)\<bar> \<le> 1 / 2 ^ 25" by (rule rnd32_error_abs_unit)
  have "(1 / 2 ^ 25 :: real) + 1 / 2 ^ 25 = 1 / 2 ^ 24" by simp
  then have sum: "\<bar>?w + ?u + ?v - 1\<bar> \<le> 1 / 2 ^ 24" using ea ew by linarith
  show ?thesis
    using run rg(1,2,3) v1 lo hi ip w0 w1 sum
    by (intro exI [of _ ?u] exI [of _ ?v] conjI exI [of _ ?w]) simp_all
qed

theorem triangle_remap_weights_witness:
  "\<exists>u' v'. triangle_remap (1 / 4, 1 / 2) = Inr (u', v')
      \<and> 0 \<le> u' \<and> u' \<le> 1 \<and> 0 \<le> v' \<and> v' \<le> 1
      \<and> - (1 / 2 ^ 25) \<le> 1 - u' - v' \<and> 1 - u' - v' \<le> 1
      \<and> (\<exists>w0. interpolate_vert_triangles [(0, 1, 2)] [1, 0, 0 :: real] 0 (u', v') = Inr w0
            \<and> - (1 / 2 ^ 24) \<le> w0 \<and> w0 \<le> 1 \<and> \<bar>w0 + u' + v' - 1\<bar> \<le> 1 / 2 ^ 24)"
  using triangle_remap_weights [of "1 / 4" "1 / 2"] by simp

theorem triangle_remap_negative_weight_counterexample:
  "triangle_remap (1 / 2 ^ 60, 1 / 2) = Inr (1, 1 / 2 ^ 31)
   \<and> (0 :: real) \<le> 1 / 2 ^ 60 \<and> (1 :: real) / 2 ^ 60 < 1
   \<and> 1 - 1 - 1 / 2 ^ 31 < (0 :: real)
   \<and> interpolate_vert_triangles [(0, 1, 2)] [1, 0, 0 :: real] 0 (1, 1 / 2 ^ 31)
       = Inr (- (1 / 2 ^ 31))"
proof -
  have s: "fsqrt (1 / 2 ^ 60) = Inr (1 / 2 ^ 30)"
  proof -
    have "f32 (real_of_int 1 / 2 ^ 30) = Inr (real_of_int 1 / 2 ^ 30)"
      by (rule f32_dyadic) simp_all
    then have "f32 (sqrt (1 / 2 ^ 60)) = Inr (1 / 2 ^ 30)"
      by (simp only: sqrt_inverse_power_60 of_int_1)
    moreover have "\<not> (1 / 2 ^ 60 :: real) < 0" by simp
    ultimately show ?thesis by (simp only: fsqrt_def if_False)
  qed
  have "f32 (1 - 1 / 2 ^ 30) = Inr (rnd32 (1 - 1 / 2 ^ 30))" by (rule f32_unit) simp_all
  then have d: "fsub 1 (1 / 2 ^ 30) = Inr 1" using rnd32_below_one by (simp add: fsub_def)
  have m: "fmul (1 / 2) (1 / 2 ^ 30) = Inr (1 / 2 ^ 31)"
    using f32_dyadic [of 1 31] by (simp add: fmul_def)
  have run: "triangle_remap (1 / 2 ^ 60, 1 / 2) = Inr (1, 1 / 2 ^ 31)"
    using s d m by (simp add: triangle_remap_def)
  have n: "fsub 0 (1 / 2 ^ 31) = Inr (- (1 / 2 ^ 31))"
    using f32_dyadic [of "- 1" 31] by (simp add: fsub_def)
  have ip: "interpolate_vert_triangles [(0, 1, 2)] [1, 0, 0 :: real] 0 (1, 1 / 2 ^ 31)
       = Inr (- (1 / 2 ^ 31))"
    using n by (simp add: interpolate_vert_triangles_def get_at_def fsub_def)
  show ?thesis using run ip by simp
qed

section \<open>Properties of the distribution builder\<close>

lemma fill_step:
  "n < length c0 \<Longrightarrow>
   (map w [0..<n] @ drop n c0)[n := v] = map w [0..<n] @ v # drop (Suc n) c0"
  by (simp add: list_update_append Cons_nth_drop_Suc [symmetric])

lemma fill_loop:
  assumes body: "\<And>i. i < n \<Longrightarrow>
      f (map w [0..<i] @ drop i c0) i = Inr ((map w [0..<i] @ drop i c0)[i := w i])"
    and n: "n \<le> length c0"
  shows "efoldl f c0 [0..<n] = Inr (map w [0..<n] @ drop n c0)"
  using assms
proof (induction n)
  case 0
  show ?case by simp
next
  case (Suc n)
  have n: "n < length c0" using Suc.prems(2) by simp
  have IH: "efoldl f c0 [0..<n] = Inr (map w [0..<n] @ drop n c0)"
    using Suc.prems(1) n by (intro Suc.IH) simp_all
  have step: "f (map w [0..<n] @ drop n c0) n = Inr ((map w [0..<n] @ drop n c0)[n := w n])"
    by (rule Suc.prems(1)) simp
  show ?case
    by (simp add: efoldl_append IH step fill_step [OF n])
qed

lemma psum32_rep:
  assumes "rnd32 (ws ! 0) = ws ! 0"
  shows "rnd32 (psum32 ws k) = psum32 ws k"
  using assms by (cases k) simp_all

lemma psum32_step:
  assumes rep: "rnd32 (ws ! 0) = ws ! 0" and nonneg: "0 \<le> ws ! Suc k"
  shows "psum32 ws k \<le> psum32 ws (Suc k)"
proof -
  have "rnd32 (psum32 ws k) \<le> rnd32 (ws ! Suc k + psum32 ws k)"
    by (rule rnd32_mono) (use nonneg in simp)
  then show ?thesis by (simp add: psum32_rep [OF rep])
qed

lemma psum32_mono:
  assumes rep: "rnd32 (ws ! 0) = ws ! 0" and nonneg: "\<forall>x \<in> set ws. 0 \<le> x"
    and ij: "i \<le> j" "j < length ws"
  shows "psum32 ws i \<le> psum32 ws j"
  using ij
proof (induction j)
  case 0
  then show ?case by simp
next
  case (Suc j)
  show ?case
  proof (cases "i = Suc j")
    case True
    then show ?thesis by simp
  next
    case False
    then have "psum32 ws i \<le> psum32 ws j" using Suc by simp
    moreover have "0 \<le> ws ! Suc j" using nonneg Suc.prems(2) by simp
    from psum32_step [OF rep this] have "psum32 ws j \<le> psum32 ws (Suc j)" .
    ultimately show ?thesis by simp
  qed
qed

lemma psum32_nonneg:
  assumes "rnd32 (ws ! 0) = ws ! 0" "\<forall>x \<in> set ws. 0 \<le> x" "k < length ws"
  shows "0 \<le> psum32 ws k"
proof -
  have "0 \<le> ws ! 0" using assms(2,3) by (cases ws) simp_all
  then have "0 \<le> psum32 ws 0" by simp
  also have "\<dots> \<le> psum32 ws k" by (rule psum32_mono [OF assms(1,2) _ assms(3)]) simp
  finally show ?thesis .
qed

lemma accumulate_loop:
  assumes "Suc k \<le> length c" and fin: "\<forall>j \<le> k. \<bar>psum32 c j\<bar> \<le> f32_max"
  shows "efoldl (\<lambda>cdf i. ebind (get_at cdf (int i)) (\<lambda>c.
                      ebind (get_at cdf (int i - 1)) (\<lambda>p.
                      ebind (fadd c p) (\<lambda>s. set_at cdf (int i) s))))
            c [1..<Suc k]
         = Inr (map (psum32 c) [0..<Suc k] @ drop (Suc k) c)"
  using assms
proof (induction k)
  case 0
  then have "c \<noteq> []" by auto
  then have "[psum32 c 0] @ drop (Suc 0) c = c"
    by (cases c) simp_all
  then show ?case by simp
next
  case (Suc k)
  let ?f = "\<lambda>cdf i. ebind (get_at cdf (int i)) (\<lambda>c.
                      ebind (get_at cdf (int i - 1)) (\<lambda>p.
                      ebind (fadd c p) (\<lambda>s. set_at cdf (int i) s)))"
  let ?s = "map (psum32 c) [0..<Suc k] @ drop (Suc k) c"
  have IH: "efoldl ?f c [1..<Suc k] = Inr ?s"
    using Suc.prems by (intro Suc.IH) simp_all
  have len: "length ?s = length c" using Suc.prems by simp
  have cur: "?s ! Suc k = c ! Suc k"
    using Suc.prems by (simp add: nth_append)
  have prev: "?s ! k = psum32 c k"
    by (simp add: nth_append nth_Cons' del: upt_Suc)
  have g1: "get_at ?s (int (Suc k)) = Inr (c ! Suc k)"
    using get_at_ok [of "Suc k" ?s] Suc.prems len cur by simp
  have g2: "get_at ?s (int (Suc k) - 1) = Inr (psum32 c k)"
    using get_at_ok [of k ?s] Suc.prems len prev by simp
  have s1: "set_at ?s (int (Suc k)) v = Inr (?s[Suc k := v])" for v
    using set_at_ok [of "Suc k" ?s] Suc.prems len by simp
  have "\<bar>psum32 c (Suc k)\<bar> \<le> f32_max" using Suc.prems(2) by blast
  then have add: "fadd (c ! Suc k) (psum32 c k) = Inr (psum32 c (Suc k))"
    by (simp add: fadd_def f32_def)
  have upd: "?s[Suc k := psum32 c (Suc k)]
      = map (psum32 c) [0..<Suc (Suc k)] @ drop (Suc (Suc k)) c"
    using fill_step [of "Suc k" c "psum32 c" "psum32 c (Suc k)"] Suc.prems
    by simp
  have "[1..<Suc (Suc k)] = [1..<Suc k] @ [Suc k]" by simp
  then show ?case
    by (simp only: efoldl_append IH ebind_Inr efoldl.simps g1 g2 add s1 upd)
qed

lemma cdf_accumulate_eq:
  assumes "c \<noteq> []" and "\<forall>j < length c. \<bar>psum32 c j\<bar> \<le> f32_max"
  shows "cdf_accumulate (length c) c = Inr (map (psum32 c) [0..<length c])"
proof -
  obtain k where k: "length c = Suc k" using assms(1) by (cases c) auto
  have "\<forall>j \<le> k. \<bar>psum32 c j\<bar> \<le> f32_max" using assms(2) k by simp
  then show ?thesis
    unfolding cdf_accumulate_def k
    using accumulate_loop [of k c] k by simp
qed

lemma normalize_loop:
  assumes k: "k \<le> length c" and T: "0 < last c"
    and range: "\<forall>i < k. 0 \<le> c ! i \<and> c ! i \<le> last c"
  shows "efoldl (\<lambda>cdf i. ebind (get_at cdf (int i)) (\<lambda>c.
                      ebind (back_elem cdf) (\<lambda>b.
                      ebind (fdiv c b) (\<lambda>q. set_at cdf (int i) q))))
            c [0..<k]
         = Inr (map (\<lambda>i. rnd32 (c ! i / last c)) [0..<k] @ drop k c)"
proof (rule fill_loop [OF _ k])
  fix i assume i: "i < k"
  let ?s = "map (\<lambda>i. rnd32 (c ! i / last c)) [0..<i] @ drop i c"
  have ic: "i < length c" using i k by simp
  have len: "length ?s = length c" using ic by simp
  have cur: "?s ! i = c ! i" using ic by (simp add: nth_append)
  have ne: "?s \<noteq> []" using ic by auto
  have "drop i c \<noteq> []" using ic by simp
  then have lst: "last ?s = last c" using ic by simp
  have g: "get_at ?s (int i) = Inr (c ! i)"
    using get_at_ok [of i ?s] ic len cur by simp
  have bk: "back_elem ?s = Inr (last c)"
    using ne lst by (simp add: back_elem_def)
  have st: "set_at ?s (int i) v = Inr (?s[i := v])" for v
    using set_at_ok [of i ?s] ic len by simp
  have "0 \<le> c ! i / last c" "c ! i / last c \<le> 1"
    using range i T by simp_all
  then have "f32 (c ! i / last c) = Inr (rnd32 (c ! i / last c))" by (rule f32_unit)
  then have dv: "fdiv (c ! i) (last c) = Inr (rnd32 (c ! i / last c))"
    using T by (simp add: fdiv_def)
  show "ebind (get_at ?s (int i)) (\<lambda>c. ebind (back_elem ?s) (\<lambda>b.
          ebind (fdiv c b) (\<lambda>q. set_at ?s (int i) q)))
        = Inr (?s[i := rnd32 (c ! i / last c)])"
    by (simp only: g bk ebind_Inr dv st)
qed

lemma cdf_normalize_eq:
  assumes "c \<noteq> []" "0 < last c" "\<forall>i < length c. 0 \<le> c ! i \<and> c ! i \<le> last c"
  shows "cdf_normalize (length c) c = Inr (map (\<lambda>x. rnd32 (x / last c)) c)"
proof -
  have "map (\<lambda>i. rnd32 (c ! i / last c)) [0..<length c] = map (\<lambda>x. rnd32 (x / last c)) c"
    by (rule nth_equalityI) simp_all
  then show ?thesis
    unfolding cdf_normalize_def using normalize_loop [of "length c" c] assms(2,3) by simp
qed

lemma cdf_pipeline:
  assumes ne: "ws \<noteq> []" and rep: "rnd32 (ws ! 0) = ws ! 0" and nonneg: "\<forall>x \<in> set ws. 0 \<le> x"
    and pos: "0 < psum32 ws (length ws - 1)" and fin: "psum32 ws (length ws - 1) \<le> f32_max"
  shows "ebind (cdf_accumulate (length ws) ws) (\<lambda>cdf.
         ebind (back_elem cdf) (\<lambda>weight.
         ebind (cdf_normalize (length ws) cdf) (\<lambda>cdf. Inr (cdf, weight))))
       = Inr (map (\<lambda>k. rnd32 (psum32 ws k / psum32 ws (length ws - 1))) [0..<length ws],
              psum32 ws (length ws - 1))"
proof -
  let ?T = "psum32 ws (length ws - 1)"
  let ?P = "map (psum32 ws) [0..<length ws]"
  have ne': "?P \<noteq> []" using ne by simp
  have lst: "last ?P = ?T" using ne by (simp add: last_map)
  have bound: "0 \<le> psum32 ws j \<and> psum32 ws j \<le> ?T" if "j < length ws" for j
    using psum32_nonneg [OF rep nonneg that] psum32_mono [OF rep nonneg, of j "length ws - 1"] that
    by simp
  have "\<forall>j < length ws. \<bar>psum32 ws j\<bar> \<le> f32_max"
    using bound fin by fastforce
  then have acc: "cdf_accumulate (length ws) ws = Inr ?P" by (rule cdf_accumulate_eq [OF ne])
  have bk: "back_elem ?P = Inr ?T"
    using ne' lst by (simp add: back_elem_def)
  have pT: "0 < last ?P" using pos by (simp only: lst)
  have rg: "\<forall>i < length ?P. 0 \<le> ?P ! i \<and> ?P ! i \<le> last ?P"
  proof (intro allI impI)
    fix i assume "i < length ?P"
    then have i: "i < length ws" by simp
    then have "?P ! i = psum32 ws i" by simp
    then show "0 \<le> ?P ! i \<and> ?P ! i \<le> last ?P" using bound [OF i] by (simp only: lst)
  qed
  have "cdf_normalize (length ?P) ?P = Inr (map (\<lambda>x. rnd32 (x / last ?P)) ?P)"
    by (rule cdf_normalize_eq [OF ne' pT rg])
  then have nz: "cdf_normalize (length ws) ?P
      = Inr (map (\<lambda>k. rnd32 (psum32 ws k / ?T)) [0..<length ws])"
    by (simp add: lst comp_def)
  show ?thesis
    by (simp only: acc ebind_Inr bk nz)
qed

lemma normalized_psums:
  assumes ne: "ws \<noteq> []" and rep: "rnd32 (ws ! 0) = ws ! 0" and nonneg: "\<forall>x \<in> set ws. 0 \<le> x"
    and pos: "0 < psum32 ws (length ws - 1)"
  shows "sorted (map (\<lambda>k. rnd32 (psum32 ws k / psum32 ws (length ws - 1))) [0..<length ws])"
    and "last (map (\<lambda>k. rnd32 (psum32 ws k / psum32 ws (length ws - 1))) [0..<length ws]) = 1"
proof -
  let ?T = "psum32 ws (length ws - 1)"
  show "sorted (map (\<lambda>k. rnd32 (psum32 ws k / ?T)) [0..<length ws])"
  proof (rule sorted_iff_nth_mono [THEN iffD2], intro allI impI)
    fix i j assume "i \<le> j" "j < length (map (\<lambda>k. rnd32 (psum32 ws k / ?T)) [0..<length ws])"
    then have ij: "i \<le> j" "j < length ws" by simp_all
    have "psum32 ws i / ?T \<le> psum32 ws j / ?T"
      using psum32_mono [OF rep nonneg ij] pos by (simp add: divide_right_mono)
    then have "rnd32 (psum32 ws i / ?T) \<le> rnd32 (psum32 ws j / ?T)" by (rule rnd32_mono)
    then show "map (\<lambda>k. rnd32 (psum32 ws k / ?T)) [0..<length ws] ! i
        \<le> map (\<lambda>k. rnd32 (psum32 ws k / ?T)) [0..<length ws] ! j"
      using ij by simp
  qed
  have "last (map (\<lambda>k. rnd32 (psum32 ws k / ?T)) [0..<length ws]) = rnd32 (?T / ?T)"
    using ne by (simp add: last_map)
  then show "last (map (\<lambda>k. rnd32 (psum32 ws k / ?T)) [0..<length ws]) = 1"
    using pos by simp
qed

lemma psum32_exact:
  assumes "\<forall>j \<le> k. rnd32 (sum_list (take (Suc j) ws)) = sum_list (take (Suc j) ws)"
    and "k < length ws"
  shows "psum32 ws k = sum_list (take (Suc k) ws)"
  using assms
proof (induction k)
  case 0
  then show ?case by (cases ws) simp_all
next
  case (Suc k)
  have IH: "psum32 ws k = sum_list (take (Suc k) ws)" using Suc by simp
  have t: "sum_list (take (Suc (Suc k)) ws) = ws ! Suc k + sum_list (take (Suc k) ws)"
    using Suc.prems(2) by (simp add: take_Suc_conv_app_nth [of "Suc k"])
  have "rnd32 (sum_list (take (Suc (Suc k)) ws)) = sum_list (take (Suc (Suc k)) ws)"
    using Suc.prems(1) by blast
  then show ?case by (simp add: IH t)
qed

lemma ebind_eq_Inr: "ebind m f = Inr v \<longleftrightarrow> (\<exists>x. m = Inr x \<and> f x = Inr v)"
  by (cases m) simp_all

lemma fsqrt_eq_Inr: "fsqrt t = Inr w \<Longrightarrow> 0 \<le> w \<and> rnd32 w = w"
  by (auto simp: fsqrt_def f32_eq_Inr rnd32_nonneg split: if_splits)

lemma length3_eq_Inr: "length3 d = Inr w \<Longrightarrow> 0 \<le> w \<and> rnd32 w = w"
  by (cases d) (auto simp: ebind_eq_Inr dest: fsqrt_eq_Inr)

lemma ebind_assoc: "ebind (ebind m f) g = ebind m (\<lambda>x. ebind (f x) g)"
  by (cases m) simp_all

lemma f32_minus: "f32 (- x) = ebind (f32 x) (\<lambda>y. Inr (- y))"
  by (simp add: f32_def rnd32_minus)

lemma fsub_swap: "fsub a b = ebind (fsub b a) (\<lambda>y. Inr (- y))"
  using f32_minus [of "b - a"] by (simp add: fsub_def)

lemma sub3_swap: "sub3 p q = ebind (sub3 q p) (\<lambda>d. Inr (neg3 d))"
proof (cases p, cases q)
  fix a b c x y z assume p: "p = (a, b, c)" and q: "q = (x, y, z)"
  show ?thesis
    unfolding p q sub3.simps
    by (subst fsub_swap [of a x], subst fsub_swap [of b y], subst fsub_swap [of c z])
       (simp add: ebind_assoc)
qed

lemma length3_neg3: "length3 (neg3 d) = length3 d"
  by (cases d) (simp add: fmul_def)

lemma cross_neg3: "cross (neg3 a) (neg3 b) = cross a b"
  by (cases a, cases b) (simp add: fmulsub_def fmul_def)

lemma get_at_valid: "valid_id xs v \<Longrightarrow> get_at xs v = Inr (xs ! nat v)"
  by (simp add: valid_id_def get_at_def)

lemma line_weight_code:
  assumes "valid_id pos (fst f)" "valid_id pos (snd f)"
  shows "ebind (get_at pos (fst f)) (\<lambda>p0.
         ebind (get_at pos (snd f)) (\<lambda>p1.
         ebind (sub3 p0 p1) (\<lambda>d.
         ebind (length3 d) k)))
       = ebind (line_weight pos f) k"
proof -
  let ?p0 = "pos ! nat (fst f)" and ?p1 = "pos ! nat (snd f)"
  have "ebind (sub3 ?p0 ?p1) (\<lambda>d. ebind (length3 d) k)
      = ebind (sub3 ?p1 ?p0) (\<lambda>d. ebind (length3 d) k)"
    by (subst sub3_swap) (simp add: ebind_assoc length3_neg3)
  then show ?thesis
    by (simp add: get_at_valid assms line_weight_def distance32_def ebind_assoc)
qed

lemma triangle_weight_code:
  assumes "valid_id pos (nth3 f 0)" "valid_id pos (nth3 f 1)" "valid_id pos (nth3 f 2)"
  shows "ebind (get_at pos (nth3 f 0)) (\<lambda>p0.
         ebind (get_at pos (nth3 f 1)) (\<lambda>p1.
         ebind (get_at pos (nth3 f 2)) (\<lambda>p2.
         ebind (sub3 p0 p1) (\<lambda>a.
         ebind (sub3 p0 p2) (\<lambda>b.
         ebind (cross a b) (\<lambda>c.
         ebind (length3 c) (\<lambda>l.
         ebind (fdiv l 2) k)))))))
       = ebind (triangle_weight pos f) k"
proof -
  let ?p0 = "pos ! nat (nth3 f 0)" and ?p1 = "pos ! nat (nth3 f 1)"
    and ?p2 = "pos ! nat (nth3 f 2)"
  let ?K = "\<lambda>c. ebind (length3 c) (\<lambda>l. ebind (fdiv l 2) k)"
  have "ebind (sub3 ?p0 ?p1) (\<lambda>a. ebind (sub3 ?p0 ?p2) (\<lambda>b. ebind (cross a b) ?K))
      = ebind (sub3 ?p1 ?p0) (\<lambda>a. ebind (sub3 ?p0 ?p2) (\<lambda>b. ebind (cross (neg3 a) b) ?K))"
    by (subst sub3_swap) (simp add: ebind_assoc)
  also have "\<dots> = ebind (sub3 ?p1 ?p0) (\<lambda>a. ebind (sub3 ?p2 ?p0) (\<lambda>b.
      ebind (cross (neg3 a) (neg3 b)) ?K))"
    by (subst sub3_swap [of ?p0 ?p2]) (simp add: ebind_assoc)
  finally have "ebind (sub3 ?p0 ?p1) (\<lambda>a. ebind (sub3 ?p0 ?p2) (\<lambda>b. ebind (cross a b) ?K))
      = ebind (sub3 ?p1 ?p0) (\<lambda>a. ebind (sub3 ?p2 ?p0) (\<lambda>b. ebind (cross a b) ?K))"
    by (simp only: cross_neg3)
  then show ?thesis
    using assms by (simp add: get_at_valid triangle_weight_def area32_def ebind_assoc)
qed

lemma distance32_eq_Inr:
  assumes "distance32 p q = Inr w"
  shows "0 \<le> w \<and> rnd32 w = w"
proof -
  from assms obtain d where "length3 d = Inr w"
    unfolding distance32_def ebind_eq_Inr by blast
  then show ?thesis by (rule length3_eq_Inr)
qed

lemma line_weight_eq_Inr: "line_weight pos f = Inr w \<Longrightarrow> 0 \<le> w \<and> rnd32 w = w"
  unfolding line_weight_def by (rule distance32_eq_Inr)

lemma area32_eq_Inr:
  assumes "area32 p q r = Inr w"
  shows "0 \<le> w \<and> rnd32 w = w"
proof -
  from assms obtain c l where l: "length3 c = Inr l" and w: "fdiv l 2 = Inr w"
    unfolding area32_def ebind_eq_Inr by blast
  have "0 \<le> l" using length3_eq_Inr [OF l] by simp
  then have "0 \<le> rnd32 (l / 2)" by (intro rnd32_nonneg) simp
  moreover have "w = rnd32 (l / 2)" using w by (simp add: fdiv_def f32_eq_Inr)
  ultimately show ?thesis by simp
qed

lemma triangle_weight_eq_Inr: "triangle_weight pos f = Inr w \<Longrightarrow> 0 \<le> w \<and> rnd32 w = w"
  unfolding triangle_weight_def by (rule area32_eq_Inr)

lemma weights_nonneg_rep:
  assumes "map g elems = map Inr ws" and "\<And>x w. g x = Inr w \<Longrightarrow> 0 \<le> w \<and> rnd32 w = w"
  shows "\<forall>w \<in> set ws. 0 \<le> w \<and> rnd32 w = w"
proof
  fix w assume "w \<in> set ws"
  then obtain i where i: "i < length ws" "w = ws ! i" by (auto simp: in_set_conv_nth)
  have len: "length elems = length ws" using assms(1) by (metis length_map)
  have "map g elems ! i = map Inr ws ! i" using assms(1) by simp
  then have "g (elems ! i) = Inr w" using i len by simp
  then show "0 \<le> w \<and> rnd32 w = w" by (rule assms(2))
qed

lemma map_nth_upt: "map (\<lambda>i. xs ! i) [0..<length xs] = xs"
  by (rule nth_equalityI) simp_all

lemma fill_weights:
  assumes ws: "map g elems = map Inr ws" and len: "length cdf = length elems"
    and body: "\<And>c i. i < length elems \<Longrightarrow>
      f c i = ebind (g (elems ! i)) (\<lambda>w. set_at c (int i) w)"
  shows "efoldl f cdf [0..<length elems] = Inr ws"
proof -
  have n: "length elems = length ws" using ws by (metis length_map)
  have "efoldl f cdf [0..<length elems]
      = Inr (map (\<lambda>i. ws ! i) [0..<length elems] @ drop (length elems) cdf)"
  proof (rule fill_loop)
    fix i assume i: "i < length elems"
    let ?s = "map (\<lambda>i. ws ! i) [0..<i] @ drop i cdf"
    have "map g elems ! i = map Inr ws ! i" using ws by simp
    then have gi: "g (elems ! i) = Inr (ws ! i)" using i n by simp
    have st: "set_at ?s (int i) v = Inr (?s[i := v])" for v
      using set_at_ok [of i ?s] i len by simp
    show "f ?s i = Inr (?s[i := ws ! i])"
      by (simp add: body [OF i] gi st)
  qed (simp add: len)
  then show ?thesis by (simp add: len n map_nth_upt)
qed

lemma fill_points:
  assumes "length cdf = length elems"
  shows "efoldl (\<lambda>cdf i. set_at cdf (int i) 1) cdf [0..<length elems]
       = Inr (replicate (length elems) 1)"
proof -
  have "efoldl (\<lambda>cdf i. set_at cdf (int i) 1) cdf [0..<length elems]
      = Inr (map (\<lambda>i. 1) [0..<length elems] @ drop (length elems) cdf)"
    by (rule fill_loop) (simp_all add: set_at_ok assms)
  then show ?thesis by (simp add: assms map_replicate_const)
qed

lemma rnd32_nat: "n \<le> 16777216 \<Longrightarrow> rnd32 (real n) = real n"
  using rnd32_of_int [of "int n"] by simp

lemma psum32_ones:
  assumes "k < n"
  shows "psum32 (replicate n 1) k = real (min (Suc k) 16777216)"
  using assms
proof (induction k)
  case 0
  then show ?case by simp
next
  case (Suc k)
  then have IH: "psum32 (replicate n 1) k = real (min (Suc k) 16777216)" by simp
  show ?case
  proof (cases "Suc k < 16777216")
    case True
    have p: "psum32 (replicate n 1) k = real (Suc k)" using IH True by (simp add: min_def)
    have "psum32 (replicate n 1) (Suc k) = rnd32 (1 + real (Suc k))"
      using Suc.prems by (simp add: p)
    also have "1 + real (Suc k) = real (Suc (Suc k))" by simp
    also have "rnd32 (real (Suc (Suc k))) = real (Suc (Suc k))"
      by (intro rnd32_nat) (use True in simp)
    finally show ?thesis using True by (simp add: min_def)
  next
    case False
    have p: "psum32 (replicate n 1) k = 16777216" using IH False by (simp add: min_def)
    have "psum32 (replicate n 1) (Suc k) = rnd32 (1 + 16777216)"
      using Suc.prems by (simp add: p)
    also have "\<dots> = 16777216" using rnd32_sticks by (simp add: add.commute)
    finally show ?thesis using False by (simp add: min_def)
  qed
qed

lemma p2_le_f32_max: "k \<le> 127 \<Longrightarrow> p2 k \<le> f32_max"
proof -
  assume "k \<le> 127"
  then have "p2 k \<le> p2 127" by (rule p2_mono)
  also have "p2 127 = 2 ^ 127" using p2_nat [of 127] by simp
  also have "(2 ^ 127 :: real) \<le> f32_max" by (simp add: f32_max_def)
  finally show ?thesis .
qed

lemma rnd32_p2: "- 149 \<le> k \<Longrightarrow> rnd32 (p2 k) = p2 k"
  using rnd32_rep [of 1 k] by simp

lemma f32_bounded:
  assumes "\<bar>x\<bar> \<le> p2 k" "- 149 \<le> k" "k \<le> 127"
  shows "\<exists>y. f32 x = Inr y \<and> \<bar>y\<bar> \<le> p2 k \<and> (0 \<le> x \<longrightarrow> 0 \<le> y)"
proof -
  have "rnd32 \<bar>x\<bar> \<le> rnd32 (p2 k)" using assms(1) by (rule rnd32_mono)
  then have b: "\<bar>rnd32 x\<bar> \<le> p2 k" by (simp add: rnd32_abs rnd32_p2 [OF assms(2)])
  then have "\<bar>rnd32 x\<bar> \<le> f32_max" using p2_le_f32_max [OF assms(3)] by linarith
  then have "f32 x = Inr (rnd32 x)" by (simp add: f32_def)
  then show ?thesis using b rnd32_nonneg [of x] by auto
qed

lemma p2_double: "p2 k + p2 k = p2 (k + 1)"
  using p2_add [of k 1] p2_nat [of 1] by simp

lemma fsub_bounded:
  assumes "\<bar>a\<bar> \<le> p2 k" "\<bar>b\<bar> \<le> p2 k" "m = k + 1" "- 149 \<le> m" "m \<le> 127"
  shows "\<exists>y. fsub a b = Inr y \<and> \<bar>y\<bar> \<le> p2 m"
proof -
  have "\<bar>a - b\<bar> \<le> p2 m" using assms(1,2) p2_double [of k] unfolding assms(3) by linarith
  from f32_bounded [OF this assms(4,5)] show ?thesis unfolding fsub_def by blast
qed

lemma fadd_bounded:
  assumes "\<bar>a\<bar> \<le> p2 k" "\<bar>b\<bar> \<le> p2 k" "m = k + 1" "- 149 \<le> m" "m \<le> 127"
    and "0 \<le> a" "0 \<le> b"
  shows "\<exists>y. fadd a b = Inr y \<and> \<bar>y\<bar> \<le> p2 m \<and> 0 \<le> y"
proof -
  have "\<bar>a + b\<bar> \<le> p2 m" using assms(1,2) p2_double [of k] unfolding assms(3) by linarith
  moreover have "0 \<le> a + b" using assms(6,7) by simp
  ultimately show ?thesis using f32_bounded [of "a + b" m] assms(4,5) unfolding fadd_def by blast
qed

lemma fmul_bounded:
  assumes "\<bar>a\<bar> \<le> p2 j" "\<bar>b\<bar> \<le> p2 k" "m = j + k" "- 149 \<le> m" "m \<le> 127"
  shows "\<exists>y. fmul a b = Inr y \<and> \<bar>y\<bar> \<le> p2 m \<and> (0 \<le> a * b \<longrightarrow> 0 \<le> y)"
proof -
  have "\<bar>a\<bar> * \<bar>b\<bar> \<le> p2 j * p2 k" by (rule mult_mono) (use assms(1,2) in simp_all)
  then have "\<bar>a * b\<bar> \<le> p2 m" by (simp only: abs_mult p2_add assms(3))
  from f32_bounded [OF this assms(4,5)] show ?thesis unfolding fmul_def by blast
qed

lemma sub3_bounded:
  assumes "coords_within (p2 k) p" "coords_within (p2 k) q" "m = k + 1" "- 149 \<le> m" "m \<le> 127"
  shows "\<exists>d. sub3 p q = Inr d \<and> coords_within (p2 m) d"
proof (cases p, cases q)
  fix a b c x y z assume p: "p = (a, b, c)" and q: "q = (x, y, z)"
  have bs: "\<bar>a\<bar> \<le> p2 k" "\<bar>b\<bar> \<le> p2 k" "\<bar>c\<bar> \<le> p2 k" "\<bar>x\<bar> \<le> p2 k" "\<bar>y\<bar> \<le> p2 k" "\<bar>z\<bar> \<le> p2 k"
    using assms(1,2) by (simp_all add: p q)
  obtain d1 where d1: "fsub a x = Inr d1" "\<bar>d1\<bar> \<le> p2 m"
    using fsub_bounded [OF bs(1) bs(4) assms(3-5)] by blast
  obtain d2 where d2: "fsub b y = Inr d2" "\<bar>d2\<bar> \<le> p2 m"
    using fsub_bounded [OF bs(2) bs(5) assms(3-5)] by blast
  obtain d3 where d3: "fsub c z = Inr d3" "\<bar>d3\<bar> \<le> p2 m"
    using fsub_bounded [OF bs(3) bs(6) assms(3-5)] by blast
  have "sub3 p q = Inr (d1, d2, d3)" by (simp add: p q d1(1) d2(1) d3(1))
  moreover have "coords_within (p2 m) (d1, d2, d3)" using d1(2) d2(2) d3(2) by simp
  ultimately show ?thesis by blast
qed

lemma length3_bounded:
  assumes "coords_within (p2 k) d" "m = k + 1" "- 74 \<le> k" "k \<le> 62"
  shows "\<exists>w. length3 d = Inr w \<and> \<bar>w\<bar> \<le> p2 m"
proof (cases d)
  fix a b c assume d: "d = (a, b, c)"
  have bs: "\<bar>a\<bar> \<le> p2 k" "\<bar>b\<bar> \<le> p2 k" "\<bar>c\<bar> \<le> p2 k" using assms(1) by (simp_all add: d)
  define k2 where "k2 = k + k"
  define k3 where "k3 = k2 + 1"
  define k4 where "k4 = k3 + 1"
  have r2: "- 149 \<le> k2" "k2 \<le> 127" using assms(3,4) by (simp_all add: k2_def)
  have r3: "- 149 \<le> k3" "k3 \<le> 127" using assms(3,4) by (simp_all add: k2_def k3_def)
  have r4: "- 149 \<le> k4" "k4 \<le> 127" using assms(3,4) by (simp_all add: k2_def k3_def k4_def)
  obtain aa where aa: "fmul a a = Inr aa" "\<bar>aa\<bar> \<le> p2 k2" "0 \<le> aa"
    using fmul_bounded [OF bs(1) bs(1) k2_def r2] by auto
  obtain bb where bb: "fmul b b = Inr bb" "\<bar>bb\<bar> \<le> p2 k2" "0 \<le> bb"
    using fmul_bounded [OF bs(2) bs(2) k2_def r2] by auto
  obtain cc where cc: "fmul c c = Inr cc" "\<bar>cc\<bar> \<le> p2 k2" "0 \<le> cc"
    using fmul_bounded [OF bs(3) bs(3) k2_def r2] by auto
  obtain s where s: "fadd aa bb = Inr s" "\<bar>s\<bar> \<le> p2 k3" "0 \<le> s"
    using fadd_bounded [OF aa(2) bb(2) k3_def r3 aa(3) bb(3)] by blast
  have "p2 k2 \<le> p2 k3" by (rule p2_mono) (simp add: k3_def)
  then have cc': "\<bar>cc\<bar> \<le> p2 k3" using cc(2) by linarith
  obtain t where t: "fadd s cc = Inr t" "\<bar>t\<bar> \<le> p2 k4" "0 \<le> t"
    using fadd_bounded [OF s(2) cc' k4_def r4 s(3) cc(3)] by blast
  have "k4 = m + m" by (simp add: k4_def k3_def k2_def assms(2))
  then have "p2 k4 = p2 m * p2 m" by (simp only: p2_add)
  then have "t \<le> (p2 m)\<^sup>2" using t(2,3) by (simp add: power2_eq_square)
  then have r: "sqrt t \<le> p2 m" by (intro real_le_lsqrt) simp_all
  have "\<bar>sqrt t\<bar> \<le> p2 m" using r t(3) by simp
  moreover have "- 149 \<le> m" "m \<le> 127" using assms(2-4) by simp_all
  ultimately obtain w where "f32 (sqrt t) = Inr w" "\<bar>w\<bar> \<le> p2 m"
    using f32_bounded [of "sqrt t" m] by blast
  then have "fsqrt t = Inr w \<and> \<bar>w\<bar> \<le> p2 m" using t(3) by (simp add: fsqrt_def)
  then show ?thesis by (simp add: d aa(1) bb(1) cc(1) s(1) t(1))
qed

lemma fmulsub_bounded:
  assumes "\<bar>a\<bar> \<le> p2 k" "\<bar>b\<bar> \<le> p2 k" "\<bar>c\<bar> \<le> p2 k" "\<bar>d\<bar> \<le> p2 k"
    and "m = k + k + 1" "- 74 \<le> k" "k \<le> 63"
  shows "\<exists>y. fmulsub a b c d = Inr y \<and> \<bar>y\<bar> \<le> p2 m"
proof -
  define k2 where "k2 = k + k"
  have r2: "- 149 \<le> k2" "k2 \<le> 127" using assms(6,7) by (simp_all add: k2_def)
  have rm: "m = k2 + 1" "- 149 \<le> m" "m \<le> 127" using assms(5-7) by (simp_all add: k2_def)
  obtain x where x: "fmul a b = Inr x" "\<bar>x\<bar> \<le> p2 k2"
    using fmul_bounded [OF assms(1,2) k2_def r2] by blast
  obtain y where y: "fmul c d = Inr y" "\<bar>y\<bar> \<le> p2 k2"
    using fmul_bounded [OF assms(3,4) k2_def r2] by blast
  obtain z where "fsub x y = Inr z" "\<bar>z\<bar> \<le> p2 m"
    using fsub_bounded [OF x(2) y(2) rm] by blast
  then show ?thesis by (simp add: fmulsub_def x(1) y(1))
qed

lemma cross_bounded:
  assumes "coords_within (p2 k) p" "coords_within (p2 k) q"
    and "m = k + k + 1" "- 74 \<le> k" "k \<le> 63"
  shows "\<exists>c. cross p q = Inr c \<and> coords_within (p2 m) c"
proof (cases p, cases q)
  fix a b c x y z assume p: "p = (a, b, c)" and q: "q = (x, y, z)"
  have bs: "\<bar>a\<bar> \<le> p2 k" "\<bar>b\<bar> \<le> p2 k" "\<bar>c\<bar> \<le> p2 k" "\<bar>x\<bar> \<le> p2 k" "\<bar>y\<bar> \<le> p2 k" "\<bar>z\<bar> \<le> p2 k"
    using assms(1,2) by (simp_all add: p q)
  obtain c1 where c1: "fmulsub b z c y = Inr c1" "\<bar>c1\<bar> \<le> p2 m"
    using fmulsub_bounded [OF bs(2) bs(6) bs(3) bs(5) assms(3-5)] by blast
  obtain c2 where c2: "fmulsub c x a z = Inr c2" "\<bar>c2\<bar> \<le> p2 m"
    using fmulsub_bounded [OF bs(3) bs(4) bs(1) bs(6) assms(3-5)] by blast
  obtain c3 where c3: "fmulsub a y b x = Inr c3" "\<bar>c3\<bar> \<le> p2 m"
    using fmulsub_bounded [OF bs(1) bs(5) bs(2) bs(4) assms(3-5)] by blast
  have "cross p q = Inr (c1, c2, c3)" by (simp add: p q c1(1) c2(1) c3(1))
  moreover have "coords_within (p2 m) (c1, c2, c3)" using c1(2) c2(2) c3(2) by simp
  ultimately show ?thesis by blast
qed

lemma distance32_defined:
  assumes "coords_within (2 ^ 61) p" "coords_within (2 ^ 61) q"
  shows "\<exists>w. distance32 p q = Inr w"
proof -
  have e: "p2 61 = 2 ^ 61" using p2_nat [of 61] by simp
  have p': "coords_within (p2 61) p" and q': "coords_within (p2 61) q"
    using assms by (simp_all only: e)
  have "\<exists>d. sub3 q p = Inr d \<and> coords_within (p2 62) d"
    by (rule sub3_bounded [OF q' p']) simp_all
  then obtain d where d: "sub3 q p = Inr d" "coords_within (p2 62) d" by blast
  have "\<exists>w. length3 d = Inr w \<and> \<bar>w\<bar> \<le> p2 63"
    by (rule length3_bounded [OF d(2)]) simp_all
  then obtain w where "length3 d = Inr w" by blast
  then show ?thesis by (simp add: distance32_def d(1))
qed

lemma area32_defined:
  assumes "coords_within (2 ^ 29) p" "coords_within (2 ^ 29) q" "coords_within (2 ^ 29) r"
  shows "\<exists>w. area32 p q r = Inr w"
proof -
  have e: "p2 29 = 2 ^ 29" using p2_nat [of 29] by simp
  have p': "coords_within (p2 29) p" and q': "coords_within (p2 29) q"
    and r': "coords_within (p2 29) r"
    using assms by (simp_all only: e)
  have "\<exists>a. sub3 q p = Inr a \<and> coords_within (p2 30) a"
    by (rule sub3_bounded [OF q' p']) simp_all
  then obtain a where a: "sub3 q p = Inr a" "coords_within (p2 30) a" by blast
  have "\<exists>b. sub3 r p = Inr b \<and> coords_within (p2 30) b"
    by (rule sub3_bounded [OF r' p']) simp_all
  then obtain b where b: "sub3 r p = Inr b" "coords_within (p2 30) b" by blast
  have "\<exists>c. cross a b = Inr c \<and> coords_within (p2 61) c"
    by (rule cross_bounded [OF a(2) b(2)]) simp_all
  then obtain c where c: "cross a b = Inr c" "coords_within (p2 61) c" by blast
  have "\<exists>l. length3 c = Inr l \<and> \<bar>l\<bar> \<le> p2 62"
    by (rule length3_bounded [OF c(2)]) simp_all
  then obtain l where l: "length3 c = Inr l" "\<bar>l\<bar> \<le> p2 62" by blast
  have "\<bar>l / 2\<bar> \<le> p2 62" using l(2) by simp
  then obtain w where "f32 (l / 2) = Inr w" using f32_bounded [of "l / 2" 62] by auto
  then have "fdiv l 2 = Inr w" by (simp add: fdiv_def)
  then show ?thesis by (simp add: area32_def a(1) b(1) c(1) l(1))
qed

lemma all_Inr_map: "\<forall>x \<in> set xs. \<exists>w. g x = Inr w \<Longrightarrow> \<exists>ws. map g xs = map Inr ws"
proof (induction xs)
  case Nil
  show ?case by simp
next
  case (Cons x xs)
  then obtain w ws where "g x = Inr w" "map g xs = map Inr ws" by auto
  then have "map g (x # xs) = map Inr (w # ws)" by simp
  then show ?case by blast
qed

lemma valid_id_set: "valid_id pos v \<Longrightarrow> pos ! nat v \<in> set pos"
  by (simp add: valid_id_def)

lemma line_weights_defined:
  assumes "\<forall>f \<in> set lines. valid_id pos (fst f) \<and> valid_id pos (snd f)"
    and "\<forall>p \<in> set pos. coords_within (2 ^ 61) p"
  shows "\<exists>wl. map (line_weight pos) lines = map Inr wl"
proof (rule all_Inr_map, rule ballI)
  fix f assume "f \<in> set lines"
  then have "pos ! nat (fst f) \<in> set pos" "pos ! nat (snd f) \<in> set pos"
    using assms(1) by (simp_all add: valid_id_set)
  then have "coords_within (2 ^ 61) (pos ! nat (fst f))" "coords_within (2 ^ 61) (pos ! nat (snd f))"
    using assms(2) by blast+
  then show "\<exists>w. line_weight pos f = Inr w"
    unfolding line_weight_def by (rule distance32_defined)
qed

lemma triangle_weights_defined:
  assumes "\<forall>f \<in> set triangles. valid_id pos (nth3 f 0) \<and> valid_id pos (nth3 f 1)
             \<and> valid_id pos (nth3 f 2)"
    and "\<forall>p \<in> set pos. coords_within (2 ^ 29) p"
  shows "\<exists>wt. map (triangle_weight pos) triangles = map Inr wt"
proof (rule all_Inr_map, rule ballI)
  fix f assume "f \<in> set triangles"
  then have "pos ! nat (nth3 f 0) \<in> set pos" "pos ! nat (nth3 f 1) \<in> set pos"
      "pos ! nat (nth3 f 2) \<in> set pos"
    using assms(1) by (simp_all add: valid_id_set)
  then have "coords_within (2 ^ 29) (pos ! nat (nth3 f 0))"
      "coords_within (2 ^ 29) (pos ! nat (nth3 f 1))"
      "coords_within (2 ^ 29) (pos ! nat (nth3 f 2))"
    using assms(2) by blast+
  then show "\<exists>w. triangle_weight pos f = Inr w"
    unfolding triangle_weight_def by (rule area32_defined)
qed

lemma cdf_of_weights:
  assumes fill: "efoldl f cdf [0..<length elems] = Inr ws" and len: "length ws = length elems"
    and ne: "elems \<noteq> []" and good: "\<forall>w \<in> set ws. 0 \<le> w \<and> rnd32 w = w"
    and pos: "0 < psum32 ws (length ws - 1)" and fin: "psum32 ws (length ws - 1) \<le> f32_max"
  shows "\<exists>c. ebind (efoldl f cdf [0..<length elems]) (\<lambda>cdf.
               ebind (cdf_accumulate (length elems) cdf) (\<lambda>cdf.
               ebind (back_elem cdf) (\<lambda>weight.
               ebind (cdf_normalize (length elems) cdf) (\<lambda>cdf. Inr (cdf, weight)))))
             = Inr (c, psum32 ws (length ws - 1))
           \<and> length c = length elems \<and> sorted c \<and> last c = 1
           \<and> (\<forall>k < length elems. c ! k = rnd32 (psum32 ws k / psum32 ws (length ws - 1)))"
proof -
  let ?T = "psum32 ws (length ws - 1)"
  let ?c = "map (\<lambda>k. rnd32 (psum32 ws k / ?T)) [0..<length ws]"
  have ne': "ws \<noteq> []" using ne len by auto
  have nn: "\<forall>x \<in> set ws. 0 \<le> x" using good by simp
  have "ws ! 0 \<in> set ws" using ne' by simp
  then have rep: "rnd32 (ws ! 0) = ws ! 0" using good by blast
  have run: "ebind (efoldl f cdf [0..<length elems]) (\<lambda>cdf.
               ebind (cdf_accumulate (length elems) cdf) (\<lambda>cdf.
               ebind (back_elem cdf) (\<lambda>weight.
               ebind (cdf_normalize (length elems) cdf) (\<lambda>cdf. Inr (cdf, weight)))))
             = Inr (?c, ?T)"
    using cdf_pipeline [OF ne' rep nn pos fin] by (simp add: fill len)
  have s: "sorted ?c" and l: "last ?c = 1"
    using normalized_psums [OF ne' rep nn pos] by simp_all
  have k: "\<forall>k < length elems. ?c ! k = rnd32 (psum32 ws k / ?T)"
    by (simp add: len)
  have n: "length ?c = length elems" by (simp add: len)
  show ?thesis
    using run s l k n by (intro exI [of _ ?c] conjI)
qed

lemma f32_max_ge_nat: "real (min n 16777216) \<le> f32_max"
proof -
  have "real (min n 16777216) \<le> 2 ^ 24" by simp
  then show ?thesis using f32_max_ge by linarith
qed

lemma sample_shape_cdf_points_eq:
  assumes ne: "points \<noteq> []" and len: "length cdf = length points"
  shows "\<exists>c. sample_shape_cdf_points points pos cdf
               = Inr (c, real (min (length points) 16777216))
         \<and> length c = length points \<and> sorted c \<and> last c = 1
         \<and> (\<forall>k < length points.
               c ! k = rnd32 (real (min (Suc k) 16777216) / real (min (length points) 16777216)))"
proof -
  let ?n = "length points"
  let ?ws = "replicate ?n (1::real)"
  have n: "0 < ?n" using ne by simp
  obtain m where m: "?n = Suc m" using ne by (cases points) auto
  have "psum32 (replicate (Suc m) 1) m = real (min (Suc m) 16777216)"
    by (rule psum32_ones) simp
  then have T: "psum32 ?ws (length ?ws - 1) = real (min ?n 16777216)"
    by (simp only: m length_replicate diff_Suc_1)
  have "0 < real (min ?n 16777216)" using n by simp
  then have pos: "0 < psum32 ?ws (length ?ws - 1)" by (simp only: T)
  have fin: "psum32 ?ws (length ?ws - 1) \<le> f32_max" by (simp only: T f32_max_ge_nat)
  have good: "\<forall>w \<in> set ?ws. 0 \<le> w \<and> rnd32 w = w" by simp
  from cdf_of_weights [OF fill_points [OF len] _ ne good pos fin]
  obtain c where c: "sample_shape_cdf_points points pos cdf = Inr (c, psum32 ?ws (length ?ws - 1))"
      "length c = ?n" "sorted c" "last c = 1"
      "\<forall>k < ?n. c ! k = rnd32 (psum32 ?ws k / psum32 ?ws (length ?ws - 1))"
    unfolding sample_shape_cdf_points_def by auto
  have "\<forall>k < ?n. c ! k = rnd32 (real (min (Suc k) 16777216) / real (min ?n 16777216))"
  proof (intro allI impI)
    fix k assume k: "k < ?n"
    have "c ! k = rnd32 (psum32 ?ws k / psum32 ?ws (length ?ws - 1))" using c(5) k by blast
    then show "c ! k = rnd32 (real (min (Suc k) 16777216) / real (min ?n 16777216))"
      by (simp only: T psum32_ones [OF k])
  qed
  then show ?thesis using c(1-4) by (simp only: T) blast
qed

text \<open>
  Claim C4, as amended. The single-kind \<^verbatim>\<open>sample_shape_cdf\<close> is given a non-empty element
  array and a view \<^verbatim>\<open>cdf\<close> of as many entries as there are elements. For points it returns
  as \<^verbatim>\<open>weight\<close> the number of points up to \<open>2 ^ 24 = 16777216\<close> and \<open>16777216\<close> beyond (the
  float sum of ones stays there). For lines and triangles with valid vertex ids whose raw
  weights (the float distance of the endpoints, half the float length of the cross
  product of the edge vectors) are all finite floats \<open>w\<close>, with a running float sum
  \<^const>\<open>psum32\<close> \<open>w\<close> that ends positive and finite, it returns that last running sum as
  \<^verbatim>\<open>weight\<close>. In each case the CDF is non-decreasing, ends in exactly 1, and its entry \<open>k\<close>
  is the rounded quotient of the running sum up to \<open>k\<close> and the total. The running float
  sum is the sum of the weights whenever every partial sum is a float. The raw weights
  are finite floats when no coordinate exceeds \<open>2 ^ 61\<close> (lines) or \<open>2 ^ 29\<close> (triangles) in
  absolute value. The claim itself fails in four ways: a total weight 0 gives \<open>0 / 0\<close>;
  \<open>16777217\<close> points have the weight \<open>16777216\<close>; a coordinate \<open>2 ^ 64\<close> overflows the squared
  length; and with a longer view the last entry of the view is taken for the total.
\<close>

theorem sample_shape_cdf_normalized:
  "(points \<noteq> [] \<and> length cdf = length points \<longrightarrow>
      (\<exists>c. sample_shape_cdf_points points pos cdf
               = Inr (c, real (min (length points) 16777216))
         \<and> length c = length points \<and> sorted c \<and> last c = 1
         \<and> (\<forall>k < length points.
               c ! k = rnd32 (real (min (Suc k) 16777216)
                               / real (min (length points) 16777216)))))
   \<and> (lines \<noteq> [] \<and> length cdf = length lines
       \<and> (\<forall>f \<in> set lines. valid_id pos (fst f) \<and> valid_id pos (snd f))
       \<and> map (line_weight pos) lines = map Inr wl
       \<and> 0 < psum32 wl (length wl - 1) \<and> psum32 wl (length wl - 1) \<le> f32_max \<longrightarrow>
      (\<exists>c. sample_shape_cdf_lines lines pos cdf = Inr (c, psum32 wl (length wl - 1))
         \<and> length c = length lines \<and> sorted c \<and> last c = 1
         \<and> (\<forall>k < length lines. c ! k = rnd32 (psum32 wl k / psum32 wl (length wl - 1)))))
   \<and> (triangles \<noteq> [] \<and> length cdf = length triangles
       \<and> (\<forall>f \<in> set triangles. valid_id pos (nth3 f 0) \<and> valid_id pos (nth3 f 1)
             \<and> valid_id pos (nth3 f 2))
       \<and> map (triangle_weight pos) triangles = map Inr wt
       \<and> 0 < psum32 wt (length wt - 1) \<and> psum32 wt (length wt - 1) \<le> f32_max \<longrightarrow>
      (\<exists>c. sample_shape_cdf_triangles triangles pos cdf = Inr (c, psum32 wt (length wt - 1))
         \<and> length c = length triangles \<and> sorted c \<and> last c = 1
         \<and> (\<forall>k < length triangles.
               c ! k = rnd32 (psum32 wt k / psum32 wt (length wt - 1)))))
   \<and> (ws \<noteq> []
       \<and> (\<forall>k < length ws. rnd32 (sum_list (take (Suc k) ws)) = sum_list (take (Suc k) ws)) \<longrightarrow>
      psum32 ws (length ws - 1) = sum_list ws)
   \<and> ((\<forall>f \<in> set lines. valid_id pos (fst f) \<and> valid_id pos (snd f))
       \<and> (\<forall>p \<in> set pos. coords_within (2 ^ 61) p) \<longrightarrow>
      (\<exists>w. map (line_weight pos) lines = map Inr w))
   \<and> ((\<forall>f \<in> set triangles. valid_id pos (nth3 f 0) \<and> valid_id pos (nth3 f 1)
             \<and> valid_id pos (nth3 f 2))
       \<and> (\<forall>p \<in> set pos. coords_within (2 ^ 29) p) \<longrightarrow>
      (\<exists>w. map (triangle_weight pos) triangles = map Inr w))"
proof (intro conjI impI)
  assume "points \<noteq> [] \<and> length cdf = length points"
  then show "\<exists>c. sample_shape_cdf_points points pos cdf
               = Inr (c, real (min (length points) 16777216))
         \<and> length c = length points \<and> sorted c \<and> last c = 1
         \<and> (\<forall>k < length points.
               c ! k = rnd32 (real (min (Suc k) 16777216)
                               / real (min (length points) 16777216)))"
    by (intro sample_shape_cdf_points_eq) simp_all
next
  assume a: "lines \<noteq> [] \<and> length cdf = length lines
       \<and> (\<forall>f \<in> set lines. valid_id pos (fst f) \<and> valid_id pos (snd f))
       \<and> map (line_weight pos) lines = map Inr wl
       \<and> 0 < psum32 wl (length wl - 1) \<and> psum32 wl (length wl - 1) \<le> f32_max"
  then have ws: "map (line_weight pos) lines = map Inr wl" by simp
  have len: "length wl = length lines" using ws by (metis length_map)
  have good: "\<forall>w \<in> set wl. 0 \<le> w \<and> rnd32 w = w"
    by (rule weights_nonneg_rep [OF ws line_weight_eq_Inr])
  have fill: "efoldl (\<lambda>cdf i. ebind (get_at lines (int i)) (\<lambda>f.
                          ebind (get_at pos (fst f)) (\<lambda>p0.
                          ebind (get_at pos (snd f)) (\<lambda>p1.
                          ebind (sub3 p0 p1) (\<lambda>d.
                          ebind (length3 d) (\<lambda>w. set_at cdf (int i) w))))))
           cdf [0..<length lines] = Inr wl"
  proof (rule fill_weights [OF ws])
    show "length cdf = length lines" using a by simp
  next
    fix c :: "real list" and i assume i: "i < length lines"
    have v: "valid_id pos (fst (lines ! i))" "valid_id pos (snd (lines ! i))"
      using a i by simp_all
    show "ebind (get_at lines (int i)) (\<lambda>f.
            ebind (get_at pos (fst f)) (\<lambda>p0.
            ebind (get_at pos (snd f)) (\<lambda>p1.
            ebind (sub3 p0 p1) (\<lambda>d.
            ebind (length3 d) (\<lambda>w. set_at c (int i) w)))))
        = ebind (line_weight pos (lines ! i)) (\<lambda>w. set_at c (int i) w)"
      unfolding get_at_ok [OF i] ebind_Inr by (rule line_weight_code [OF v])
  qed
  from cdf_of_weights [OF fill len _ good] a
  show "\<exists>c. sample_shape_cdf_lines lines pos cdf = Inr (c, psum32 wl (length wl - 1))
         \<and> length c = length lines \<and> sorted c \<and> last c = 1
         \<and> (\<forall>k < length lines. c ! k = rnd32 (psum32 wl k / psum32 wl (length wl - 1)))"
    unfolding sample_shape_cdf_lines_def by simp
next
  assume a: "triangles \<noteq> [] \<and> length cdf = length triangles
       \<and> (\<forall>f \<in> set triangles. valid_id pos (nth3 f 0) \<and> valid_id pos (nth3 f 1)
             \<and> valid_id pos (nth3 f 2))
       \<and> map (triangle_weight pos) triangles = map Inr wt
       \<and> 0 < psum32 wt (length wt - 1) \<and> psum32 wt (length wt - 1) \<le> f32_max"
  then have ws: "map (triangle_weight pos) triangles = map Inr wt" by simp
  have len: "length wt = length triangles" using ws by (metis length_map)
  have good: "\<forall>w \<in> set wt. 0 \<le> w \<and> rnd32 w = w"
    by (rule weights_nonneg_rep [OF ws triangle_weight_eq_Inr])
  have fill: "efoldl (\<lambda>cdf i. ebind (get_at triangles (int i)) (\<lambda>f.
                          ebind (get_at pos (nth3 f 0)) (\<lambda>p0.
                          ebind (get_at pos (nth3 f 1)) (\<lambda>p1.
                          ebind (get_at pos (nth3 f 2)) (\<lambda>p2.
                          ebind (sub3 p0 p1) (\<lambda>a.
                          ebind (sub3 p0 p2) (\<lambda>b.
                          ebind (cross a b) (\<lambda>c.
                          ebind (length3 c) (\<lambda>l.
                          ebind (fdiv l 2) (\<lambda>w. set_at cdf (int i) w))))))))))
           cdf [0..<length triangles] = Inr wt"
  proof (rule fill_weights [OF ws])
    show "length cdf = length triangles" using a by simp
  next
    fix s :: "real list" and i assume i: "i < length triangles"
    have v: "valid_id pos (nth3 (triangles ! i) 0)" "valid_id pos (nth3 (triangles ! i) 1)"
        "valid_id pos (nth3 (triangles ! i) 2)"
      using a i by simp_all
    show "ebind (get_at triangles (int i)) (\<lambda>f.
            ebind (get_at pos (nth3 f 0)) (\<lambda>p0.
            ebind (get_at pos (nth3 f 1)) (\<lambda>p1.
            ebind (get_at pos (nth3 f 2)) (\<lambda>p2.
            ebind (sub3 p0 p1) (\<lambda>a.
            ebind (sub3 p0 p2) (\<lambda>b.
            ebind (cross a b) (\<lambda>c.
            ebind (length3 c) (\<lambda>l.
            ebind (fdiv l 2) (\<lambda>w. set_at s (int i) w)))))))))
        = ebind (triangle_weight pos (triangles ! i)) (\<lambda>w. set_at s (int i) w)"
      unfolding get_at_ok [OF i] ebind_Inr by (rule triangle_weight_code [OF v])
  qed
  from cdf_of_weights [OF fill len _ good] a
  show "\<exists>c. sample_shape_cdf_triangles triangles pos cdf = Inr (c, psum32 wt (length wt - 1))
         \<and> length c = length triangles \<and> sorted c \<and> last c = 1
         \<and> (\<forall>k < length triangles.
               c ! k = rnd32 (psum32 wt k / psum32 wt (length wt - 1)))"
    unfolding sample_shape_cdf_triangles_def by simp
next
  assume a: "ws \<noteq> []
       \<and> (\<forall>k < length ws. rnd32 (sum_list (take (Suc k) ws)) = sum_list (take (Suc k) ws))"
  then obtain m where m: "length ws = Suc m" by (cases ws) auto
  have "psum32 ws m = sum_list (take (Suc m) ws)"
    by (rule psum32_exact) (use a m in simp_all)
  then show "psum32 ws (length ws - 1) = sum_list ws" by (simp add: m)
next
  assume "(\<forall>f \<in> set lines. valid_id pos (fst f) \<and> valid_id pos (snd f))
       \<and> (\<forall>p \<in> set pos. coords_within (2 ^ 61) p)"
  then show "\<exists>w. map (line_weight pos) lines = map Inr w"
    by (intro line_weights_defined) blast+
next
  assume "(\<forall>f \<in> set triangles. valid_id pos (nth3 f 0) \<and> valid_id pos (nth3 f 1)
             \<and> valid_id pos (nth3 f 2))
       \<and> (\<forall>p \<in> set pos. coords_within (2 ^ 29) p)"
  then show "\<exists>w. map (triangle_weight pos) triangles = map Inr w"
    by (intro triangle_weights_defined) blast+
qed

theorem sample_shape_cdf_normalized_witness:
  "(\<exists>c. sample_shape_cdf_points [0, 1] [] [5, 5] = Inr (c, 2) \<and> sorted c \<and> last c = 1)
   \<and> (\<exists>c. sample_shape_cdf_lines [(0, 1), (1, 0)] [(0, 0, 0), (1, 0, 0)] [5, 5] = Inr (c, 2)
      \<and> sorted c \<and> last c = 1 \<and> c ! 0 = 1 / 2)
   \<and> (\<exists>c. sample_shape_cdf_triangles [(0, 1, 2)] [(0, 0, 0), (1, 0, 0), (0, 1, 0)] [5]
             = Inr (c, 1 / 2)
      \<and> sorted c \<and> last c = 1)
   \<and> psum32 [1, 1] (length [1, 1 :: real] - 1) = sum_list [1, 1]"
proof -
  have l: "map (line_weight [(0, 0, 0), (1, 0, 0)]) [(0, 1), (1, 0)] = map Inr [1, 1]"
    by (simp add: line_weight_def distance32_def fsub_def fmul_def fadd_def fsqrt_def)
  have t: "map (triangle_weight [(0, 0, 0), (1, 0, 0), (0, 1, 0)]) [(0, 1, 2)] = map Inr [1 / 2]"
    by (simp add: triangle_weight_def area32_def fsub_def fmul_def fadd_def fsqrt_def fdiv_def
        fmulsub_def)
  have p: "psum32 [1, 1] (length [1, 1 :: real] - 1) = 2" "psum32 [1, 1] 0 = 1"
    "psum32 [1 / 2] (length [1 / 2 :: real] - 1) = 1 / 2"
    by simp_all
  have f: "(2 :: real) \<le> f32_max" "(1 / 2 :: real) \<le> f32_max"
    using f32_max_ge_2 by simp_all
  have w1: "\<exists>c. sample_shape_cdf_points [0, 1] [] [5, 5] = Inr (c, 2) \<and> sorted c \<and> last c = 1"
    using sample_shape_cdf_normalized [of "[0, 1]" "[5, 5]" "[]" "[]" "[]" "[]" "[]" "[]"]
    by (auto simp: valid_id_def)
  have w2: "\<exists>c. sample_shape_cdf_lines [(0, 1), (1, 0)] [(0, 0, 0), (1, 0, 0)] [5, 5] = Inr (c, 2)
      \<and> sorted c \<and> last c = 1 \<and> c ! 0 = 1 / 2"
    using l p f
      sample_shape_cdf_normalized [of "[]" "[5, 5]" "[(0, 0, 0), (1, 0, 0)]" "[(0, 1), (1, 0)]"
        "[1, 1]" "[]" "[]" "[1, 1]"]
    by (auto simp: valid_id_def)
  have w3: "\<exists>c. sample_shape_cdf_triangles [(0, 1, 2)] [(0, 0, 0), (1, 0, 0), (0, 1, 0)] [5]
             = Inr (c, 1 / 2)
      \<and> sorted c \<and> last c = 1"
    using t p f
      sample_shape_cdf_normalized [of "[]" "[5]" "[(0, 0, 0), (1, 0, 0), (0, 1, 0)]" "[]" "[]"
        "[(0, 1, 2)]" "[1 / 2]" "[]"]
    by (auto simp: valid_id_def)
  have e: "\<forall>k < length [1, 1 :: real].
      rnd32 (sum_list (take (Suc k) [1, 1])) = sum_list (take (Suc k) [1, 1 :: real])"
    by (simp add: less_Suc_eq)
  have w4: "psum32 [1, 1] (length [1, 1 :: real] - 1) = sum_list [1, 1]"
    using e sample_shape_cdf_normalized [of "[]" "[]" "[]" "[]" "[]" "[]" "[]" "[1, 1]"]
    by blast
  show ?thesis using w1 w2 w3 w4 by (intro conjI)
qed

theorem sample_shape_cdf_float_counterexample:
  "sample_shape_cdf_lines [(0, 1)] [(1, 2, 3), (1, 2, 3)] [0] = Inl NotANumber
   \<and> map_sum id snd (sample_shape_cdf_points (replicate 16777217 0) [] (replicate 16777217 0))
       = Inr 16777216
   \<and> sample_shape_cdf_lines [(0, 1)] [(0, 0, 0), (2 ^ 64, 0, 0)] [0] = Inl NotANumber
   \<and> sample_shape_cdf_points [0] [] [7, 2] = Inr ([1 / 2, 2], 2)"
proof -
  have zero: "sample_shape_cdf_lines [(0, 1)] [(1, 2, 3), (1, 2, 3)] [0] = Inl NotANumber"
    by (simp add: sample_shape_cdf_lines_def get_at_def set_at_def
        fsub_def fmul_def fadd_def fsqrt_def cdf_accumulate_def cdf_normalize_def
        back_elem_def fdiv_def)
  obtain c where "sample_shape_cdf_points (replicate 16777217 0) [] (replicate 16777217 0)
      = Inr (c, real (min (length (replicate 16777217 (0::int))) 16777216))"
    using sample_shape_cdf_points_eq [of "replicate 16777217 0" "replicate 16777217 0" "[]"]
    by auto
  then have sticks: "map_sum id snd
      (sample_shape_cdf_points (replicate 16777217 0) [] (replicate 16777217 0)) = Inr 16777216"
    by simp
  have "rnd32 (of_int (- 1) * p2 64) = of_int (- 1) * p2 64" by (rule rnd32_rep) simp_all
  then have r1: "rnd32 (- (2 ^ 64)) = - (2 ^ 64)" using p2_nat [of 64] by simp
  have "rnd32 (of_int 1 * p2 128) = of_int 1 * p2 128" by (rule rnd32_rep) simp_all
  then have r2: "rnd32 (2 ^ 128) = 2 ^ 128" using p2_nat [of 128] by simp
  have s: "f32 (- (2 ^ 64)) = Inr (- (2 ^ 64))"
    using r1 by (simp add: f32_def f32_max_def)
  have m: "f32 (2 ^ 128) = Inl NotANumber"
    using r2 by (simp add: f32_def f32_max_def)
  have over: "sample_shape_cdf_lines [(0, 1)] [(0, 0, 0), (2 ^ 64, 0, 0)] [0] = Inl NotANumber"
    using s m
    by (simp add: sample_shape_cdf_lines_def get_at_def fsub_def fmul_def)
  have view: "sample_shape_cdf_points [0] [] [7, 2] = Inr ([1 / 2, 2], 2)"
    by (simp add: sample_shape_cdf_points_def set_at_def get_at_def cdf_accumulate_def
        cdf_normalize_def back_elem_def fdiv_def)
  show ?thesis using zero sticks over view by (intro conjI)
qed

end
